theory Spec2Isabelle
  imports Complex_Main "HOL-Library.Multiset" "HOL-Library.Sublist"
begin

section \<open>JavaScript values\<close>

text \<open>
  The payloads handled by the front end are what \<^verbatim>\<open>JSON.parse\<close> produces, plus
  \<^verbatim>\<open>undefined\<close> for an absent property. A number is the real value of an IEEE
  double; arithmetic that rounds is written with \<open>round64\<close> below. \<^verbatim>\<open>NaN\<close> is outside
  the model (JSON cannot carry it); the one place where the source meets it, the
  result of \<^verbatim>\<open>parseFloat\<close>, is an \<open>option\<close>. An object is the association list of
  its own properties, the first binding of a key being the one that counts.
\<close>

datatype jsval =
    JUndefined
  | JNull
  | JBool bool
  | JNum real
  | JStr string
  | JArr "jsval list"
  | JObj "(string \<times> jsval) list"

text \<open>Every exception the modelled code can raise by itself is a \<^verbatim>\<open>TypeError\<close>;
  \<open>Error m\<close> is an \<^verbatim>\<open>Error\<close> object with message \<open>m\<close>, as the API layer throws.\<close>

datatype js_error = TypeError | Error string

text \<open>
  Built-in functions of the JavaScript engine that the source calls and whose
  definition is not part of the repository. They are parameters of the model.
  \<^item> \<open>parseFloat\<close>: \<open>None\<close> is \<^verbatim>\<open>NaN\<close>;
  \<^item> \<open>numberToString\<close>: the decimal rendering of a number, used when a number
    becomes a property key;
  \<^item> \<open>localeCompare\<close>: \<^verbatim>\<open>String.prototype.localeCompare\<close> in the default locale;
  \<^item> \<open>typeErrorMessage\<close>: the \<^verbatim>\<open>message\<close> of a \<^verbatim>\<open>TypeError\<close> the engine raises.
\<close>

record js_runtime =
  parseFloat :: "string \<Rightarrow> real option"
  numberToString :: "real \<Rightarrow> string"
  localeCompare :: "string \<Rightarrow> string \<Rightarrow> real"
  typeErrorMessage :: string

fun truthy :: "jsval \<Rightarrow> bool" where
  "truthy JUndefined = False"
| "truthy JNull = False"
| "truthy (JBool b) = b"
| "truthy (JNum x) = (x \<noteq> 0)"
| "truthy (JStr s) = (s \<noteq> [])"
| "truthy (JArr xs) = True"
| "truthy (JObj kvs) = True"

text \<open>\<^verbatim>\<open>a || b\<close>\<close>

definition js_or :: "jsval \<Rightarrow> jsval \<Rightarrow> jsval" where
  "js_or a b = (if truthy a then a else b)"

fun is_nullish :: "jsval \<Rightarrow> bool" where
  "is_nullish JUndefined = True"
| "is_nullish JNull = True"
| "is_nullish v = False"

fun is_string :: "jsval \<Rightarrow> bool" where
  "is_string (JStr s) = True"
| "is_string v = False"

text \<open>\<^verbatim>\<open>Array.isArray\<close>\<close>

fun isArray :: "jsval \<Rightarrow> bool" where
  "isArray (JArr xs) = True"
| "isArray v = False"

subsection \<open>Double-precision arithmetic\<close>

text \<open>
  The result of an arithmetic operation of JavaScript is the exact result rounded
  to the nearest double, ties to the even significand (IEEE 754 binary64).
  \<open>binade x\<close> is the exponent of the power of two at or below \<open>\<bar>x\<bar>\<close>, not below
  \<open>- 1022\<close> (subnormal numbers share the spacing of the smallest normal ones), so
  that the doubles around \<open>x\<close> are the multiples of \<open>pow2 (binade x - 52)\<close>. A result of
  magnitude \<open>pow2 1024\<close> or more is \<^verbatim>\<open>Infinity\<close> with its sign, and is represented by
  \<open>pow2 1024\<close> with that sign: like \<^verbatim>\<open>Infinity\<close> it is above every finite double and
  equal to itself, and the source only compares such values and takes the sign
  of their differences.
\<close>

definition pow2 :: "int \<Rightarrow> real" where
  "pow2 k = (if 0 \<le> k then 2 ^ nat k else 1 / 2 ^ nat (- k))"

text \<open>The nearest integer, ties to even.\<close>

definition round_even :: "real \<Rightarrow> int" where
  "round_even y =
     (if y - of_int \<lfloor>y\<rfloor> < 1 / 2 then \<lfloor>y\<rfloor>
      else if 1 / 2 < y - of_int \<lfloor>y\<rfloor> then \<lfloor>y\<rfloor> + 1
      else if even \<lfloor>y\<rfloor> then \<lfloor>y\<rfloor>
      else \<lfloor>y\<rfloor> + 1)"

definition binade :: "real \<Rightarrow> int" where
  "binade x = max \<lfloor>log 2 \<bar>x\<bar>\<rfloor> (- 1022)"

definition round64 :: "real \<Rightarrow> real" where
  "round64 x =
     (if x = 0 then 0
      else if pow2 1024 \<le> \<bar>x\<bar> then sgn x * pow2 1024
      else of_int (round_even (x / pow2 (binade x - 52))) * pow2 (binade x - 52))"

text \<open>\<^verbatim>\<open>x * y\<close>\<close>

definition js_mul :: "real \<Rightarrow> real \<Rightarrow> real" where
  "js_mul x y = round64 (x * y)"

subsection \<open>Decimal numerals\<close>

definition digit_char :: "nat \<Rightarrow> char" where
  "digit_char d = ''0123456789'' ! d"

function string_of_nat :: "nat \<Rightarrow> string" where
  "string_of_nat n =
     (if n < 10 then [digit_char n]
      else string_of_nat (n div 10) @ [digit_char (n mod 10)])"
  by pat_completeness auto
termination
  by (relation "measure id") auto

declare string_of_nat.simps [simp del]

definition is_digit :: "char \<Rightarrow> bool" where
  "is_digit c = (48 \<le> (of_char c :: nat) \<and> (of_char c :: nat) \<le> 57)"

definition digit_value :: "char \<Rightarrow> nat" where
  "digit_value c = of_char c - 48"

text \<open>The integer that a string of decimal digits denotes.\<close>

definition parseInt_digits :: "string \<Rightarrow> nat" where
  "parseInt_digits ds = foldl (\<lambda>acc c. 10 * acc + digit_value c) 0 ds"

subsection \<open>Property access\<close>

text \<open>
  The own properties of a value that a read by key can see: the bindings of an
  object, the elements of an array and the characters of a string under their
  decimal indices. Inherited properties (\<^verbatim>\<open>length\<close>, methods of the prototypes) are not
  modelled; no key the source reads by name is one of them.
\<close>

fun own_props :: "jsval \<Rightarrow> (string \<times> jsval) list" where
  "own_props (JObj kvs) = kvs"
| "own_props (JArr xs) = zip (map string_of_nat [0..<length xs]) xs"
| "own_props (JStr s) = zip (map string_of_nat [0..<length s]) (map (\<lambda>c. JStr [c]) s)"
| "own_props v = []"

text \<open>\<^verbatim>\<open>v[k]\<close> and \<^verbatim>\<open>v.k\<close>: a \<^verbatim>\<open>TypeError\<close> on \<^verbatim>\<open>null\<close> and \<^verbatim>\<open>undefined\<close>.\<close>

definition get_prop :: "jsval \<Rightarrow> string \<Rightarrow> js_error + jsval" where
  "get_prop v k =
     (if is_nullish v then Inl TypeError
      else Inr (case map_of (own_props v) k of None \<Rightarrow> JUndefined | Some x \<Rightarrow> x))"

text \<open>\<^verbatim>\<open>v?.k\<close>\<close>

definition opt_prop :: "jsval \<Rightarrow> string \<Rightarrow> jsval" where
  "opt_prop v k = (case get_prop v k of Inl e \<Rightarrow> JUndefined | Inr x \<Rightarrow> x)"

text \<open>\<^verbatim>\<open>Array.prototype.join\<close> with the separator \<^verbatim>\<open>","\<close>, on the rendered elements.\<close>

fun join_comma :: "string list \<Rightarrow> string" where
  "join_comma [] = []"
| "join_comma [s] = s"
| "join_comma (s # t # ss) = s @ '','' @ join_comma (t # ss)"

text \<open>\<^verbatim>\<open>ToString\<close>, as a template literal or a computed property key applies it.\<close>

fun to_js_string :: "js_runtime \<Rightarrow> jsval \<Rightarrow> string" where
  "to_js_string rt JUndefined = ''undefined''"
| "to_js_string rt JNull = ''null''"
| "to_js_string rt (JBool b) = (if b then ''true'' else ''false'')"
| "to_js_string rt (JNum x) = numberToString rt x"
| "to_js_string rt (JStr s) = s"
| "to_js_string rt (JArr xs) =
     join_comma (map (\<lambda>x. if is_nullish x then [] else to_js_string rt x) xs)"
| "to_js_string rt (JObj kvs) = ''[object Object]''"

text \<open>\<^verbatim>\<open>String.prototype.toLowerCase\<close> on the ASCII letters; other characters are
  left as they are.\<close>

definition lower_char :: "char \<Rightarrow> char" where
  "lower_char c =
     (case map_of (zip ''ABCDEFGHIJKLMNOPQRSTUVWXYZ'' ''abcdefghijklmnopqrstuvwxyz'') c of
        None \<Rightarrow> c
      | Some l \<Rightarrow> l)"

definition toLowerCase :: "string \<Rightarrow> string" where
  "toLowerCase s = map lower_char s"

text \<open>\<^verbatim>\<open>v.toLowerCase()\<close> on a value: only a string has the method.\<close>

fun toLowerCase_val :: "jsval \<Rightarrow> js_error + string" where
  "toLowerCase_val (JStr s) = Inr (toLowerCase s)"
| "toLowerCase_val v = Inl TypeError"

text \<open>\<^verbatim>\<open>s.includes(q)\<close>\<close>

fun includes_str :: "string \<Rightarrow> string \<Rightarrow> bool" where
  "includes_str [] q = (q = [])"
| "includes_str (c # s) q = (prefix q (c # s) \<or> includes_str s q)"

section \<open>Result Normalizer\<close>

datatype risk = low | medium | high

record customer =
  customer_id :: jsval
  churn_probability :: real
  risk_level :: risk
  reason :: jsval
  strategy :: jsval
  feature_values :: jsval
  shap_feature_values :: jsval
  contract_type :: jsval
  internet_service :: jsval
  monthly_charges :: jsval

definition calculateRiskLevel :: "real \<Rightarrow> risk" where
  "calculateRiskLevel churnProbability =
     (if churnProbability < 40 then low
      else if churnProbability \<le> 70 then medium
      else high)"

text \<open>
  \<^verbatim>\<open>typeof v === 'number' ? v : parseFloat(v) || 0\<close>: a number is taken as it is,
  anything else is parsed, and \<^verbatim>\<open>NaN\<close> and \<open>0\<close> become \<open>0\<close>.
\<close>

definition resolve_score :: "js_runtime \<Rightarrow> jsval \<Rightarrow> real" where
  "resolve_score rt v =
     (case v of
        JNum x \<Rightarrow> x
      | _ \<Rightarrow> (case parseFloat rt (to_js_string rt v) of
                None \<Rightarrow> 0
              | Some x \<Rightarrow> x))"

text \<open>\<^verbatim>\<open>if (churnProbability <= 1) churnProbability = churnProbability * 100\<close>\<close>

definition rescale_score :: "real \<Rightarrow> real" where
  "rescale_score p = (if p \<le> 1 then js_mul p 100 else p)"

text \<open>The destructuring default \<^verbatim>\<open>{ k = d } = result\<close>, once \<open>result\<close> is known not
  to be \<^verbatim>\<open>null\<close> or \<^verbatim>\<open>undefined\<close>.\<close>

definition prop_default :: "jsval \<Rightarrow> string \<Rightarrow> jsval \<Rightarrow> jsval" where
  "prop_default v k d = (if opt_prop v k = JUndefined then d else opt_prop v k)"

text \<open>The callback of \<^verbatim>\<open>customer_churn.map\<close>.\<close>

definition normalize_entry ::
  "js_runtime \<Rightarrow> jsval \<Rightarrow> jsval \<Rightarrow> jsval \<Rightarrow> jsval \<Rightarrow> nat \<Rightarrow> js_error + customer" where
  "normalize_entry rt customer_reasons retention_strategies customer_insights cust index =
     (case get_prop cust ''churn_probability'' of
        Inl e \<Rightarrow> Inl e
      | Inr raw \<Rightarrow>
          let churnProbability = rescale_score (resolve_score rt raw);
              customerId = js_or (opt_prop cust ''id'')
                                 (JStr (''customer-'' @ string_of_nat (index + 1)))
          in (case get_prop customer_insights (to_js_string rt customerId) of
                Inl e \<Rightarrow> Inl e
              | Inr found \<Rightarrow>
                  let insights = js_or found (JObj []);
                      featureValues = js_or (opt_prop insights ''feature_values'') (JObj []);
                      shapValues = js_or (opt_prop insights ''shap_feature_values'') (JObj []);
                      contractType =
                        js_or (js_or (opt_prop featureValues ''Contract'')
                                     (opt_prop featureValues ''contract'')) (JStr '''');
                      internetService =
                        js_or (js_or (opt_prop featureValues ''InternetService'')
                                     (opt_prop featureValues ''internet_service'')) (JStr '''');
                      monthlyCharges =
                        js_or (js_or (opt_prop featureValues ''MonthlyCharges'')
                                     (opt_prop featureValues ''monthly_charges'')) JNull
                  in (case get_prop customer_reasons (string_of_nat index) of
                        Inl e \<Rightarrow> Inl e
                      | Inr r \<Rightarrow>
                          (case get_prop retention_strategies (string_of_nat index) of
                             Inl e \<Rightarrow> Inl e
                           | Inr s \<Rightarrow>
                               Inr \<lparr> customer_id = customerId,
                                     churn_probability = churnProbability,
                                     risk_level = calculateRiskLevel churnProbability,
                                     reason = js_or r (JStr ''''),
                                     strategy = js_or s (JStr ''''),
                                     feature_values = featureValues,
                                     shap_feature_values = shapValues,
                                     contract_type = contractType,
                                     internet_service = internetService,
                                     monthly_charges = monthlyCharges \<rparr>))))"

text \<open>\<^verbatim>\<open>Array.prototype.map\<close> with a callback that can raise: the elements are visited
  in order, with their index, and the first exception ends the loop.\<close>

fun map_index :: "('a \<Rightarrow> nat \<Rightarrow> js_error + 'b) \<Rightarrow> 'a list \<Rightarrow> nat \<Rightarrow> js_error + 'b list" where
  "map_index f [] i = Inr []"
| "map_index f (x # xs) i =
     (case f x i of
        Inl e \<Rightarrow> Inl e
      | Inr y \<Rightarrow> (case map_index f xs (Suc i) of
                    Inl e \<Rightarrow> Inl e
                  | Inr ys \<Rightarrow> Inr (y # ys)))"

definition normalizeCustomerData :: "js_runtime \<Rightarrow> jsval \<Rightarrow> js_error + customer list" where
  "normalizeCustomerData rt result =
     (if is_nullish result then Inl TypeError
      else
        let customer_churn = prop_default result ''customer_churn'' (JArr []);
            customer_reasons = prop_default result ''customer_reasons'' (JArr []);
            retention_strategies = prop_default result ''retention_strategies'' (JArr []);
            customer_insights = prop_default result ''customer_insights'' (JObj [])
        in (case customer_churn of
              JArr cs \<Rightarrow>
                map_index (normalize_entry rt customer_reasons retention_strategies
                             customer_insights) cs 0
            | _ \<Rightarrow> Inl TypeError))"

section \<open>Application state\<close>

text \<open>
  The state of \<^verbatim>\<open>AppProvider\<close>: its \<^verbatim>\<open>useState\<close> cells and its two refs, followed by
  the part of the environment that the polling code acts on: the live intervals
  (handle and the task id captured by the callback), the next handle that
  \<^verbatim>\<open>setInterval\<close> returns (handles are positive, hence truthy), the clock read by
  \<^verbatim>\<open>Date.now()\<close> in milliseconds, and the status checks issued so far, oldest first.
  \<open>effect_taskId\<close> and \<open>effect_cleanup\<close> record the dependency value of the last run of
  the polling effect and whether that run returned a cleanup function.
\<close>

record app_state =
  file_sel :: "string option"
  loading :: bool
  error :: jsval
  results :: jsval
  taskId :: jsval
  status :: jsval
  normalizedCustomers :: "customer list"
  filteredCustomers :: "customer list"
  activeFilter :: string
  expandedCardId :: jsval
  searchQuery :: string
  sortType :: string
  planTypeFilter :: string
  contractTypeFilter :: string
  regionFilter :: string
  selectedCustomer :: "customer option"
  isDrawerOpen :: bool
  pollingIntervalRef :: "nat option"
  pollingStartTimeRef :: "int option"
  timers :: "(nat \<times> jsval) list"
  next_handle :: nat
  now :: int
  requests :: "jsval list"
  mounted :: bool
  effect_taskId :: jsval
  effect_cleanup :: bool

definition POLLING_INTERVAL :: int where
  "POLLING_INTERVAL = 5000"

definition MAX_POLLING_TIME :: int where
  "MAX_POLLING_TIME = 30 * 60 * 1000"

definition initial_state :: app_state where
  "initial_state =
     \<lparr> file_sel = None, loading = False, error = JNull, results = JNull, taskId = JNull,
       status = JNull, normalizedCustomers = [], filteredCustomers = [],
       activeFilter = ''all'', expandedCardId = JNull, searchQuery = [],
       sortType = ''probability-desc'', planTypeFilter = [], contractTypeFilter = [],
       regionFilter = [], selectedCustomer = None, isDrawerOpen = False,
       pollingIntervalRef = None, pollingStartTimeRef = None,
       timers = [], next_handle = 1, now = 0, requests = [],
       mounted = True, effect_taskId = JNull, effect_cleanup = False \<rparr>"

section \<open>Task Poller\<close>

text \<open>\<^verbatim>\<open>clearInterval(h)\<close>\<close>

definition clearInterval :: "nat \<Rightarrow> app_state \<Rightarrow> app_state" where
  "clearInterval h st = st\<lparr> timers := filter (\<lambda>(k, t). k \<noteq> h) (timers st) \<rparr>"

text \<open>\<^verbatim>\<open>if (pollingIntervalRef.current) { clearInterval(pollingIntervalRef.current); }\<close>\<close>

definition clear_existing :: "app_state \<Rightarrow> app_state" where
  "clear_existing st =
     (case pollingIntervalRef st of None \<Rightarrow> st | Some h \<Rightarrow> clearInterval h st)"

text \<open>The same, followed by \<^verbatim>\<open>pollingIntervalRef.current = null\<close>.\<close>

definition clear_polling :: "app_state \<Rightarrow> app_state" where
  "clear_polling st =
     (case pollingIntervalRef st of
        None \<Rightarrow> st
      | Some h \<Rightarrow> (clearInterval h st)\<lparr> pollingIntervalRef := None \<rparr>)"

text \<open>The synchronous part of \<^verbatim>\<open>pollTaskStatus(id)\<close>: the status check is issued.\<close>

definition pollTaskStatus_call :: "jsval \<Rightarrow> app_state \<Rightarrow> app_state" where
  "pollTaskStatus_call tid st = st\<lparr> requests := requests st @ [tid] \<rparr>"

text \<open>\<^verbatim>\<open>err.message\<close> of a caught exception.\<close>

fun error_message :: "js_runtime \<Rightarrow> js_error \<Rightarrow> jsval" where
  "error_message rt TypeError = JStr (typeErrorMessage rt)"
| "error_message rt (Error m) = JStr m"

text \<open>The \<^verbatim>\<open>catch\<close> block of \<^verbatim>\<open>pollTaskStatus\<close>.\<close>

definition pollTaskStatus_catch :: "js_runtime \<Rightarrow> js_error \<Rightarrow> app_state \<Rightarrow> app_state" where
  "pollTaskStatus_catch rt err st =
     (clear_polling st)\<lparr> error := js_or (error_message rt err)
                                        (JStr ''Error checking pipeline status.''),
                         loading := False,
                         taskId := JNull \<rparr>"

text \<open>
  The debug log of the \<^verbatim>\<open>done\<close> branch evaluates
  \<^verbatim>\<open>statusData.result?.customer_churn?.slice(0, 3)?.map(c => c.id)\<close>, which raises when
  \<^verbatim>\<open>customer_churn\<close> is present and is not an array (a string has \<^verbatim>\<open>slice\<close> but no
  \<^verbatim>\<open>map\<close>), or when one of its first three elements is \<^verbatim>\<open>null\<close>.
\<close>

definition debug_log_raises :: "jsval \<Rightarrow> bool" where
  "debug_log_raises statusData =
     (let customer_churn = opt_prop (opt_prop statusData ''result'') ''customer_churn''
      in if is_nullish customer_churn then False
         else (case customer_churn of
                 JArr cs \<Rightarrow> list_ex is_nullish (take 3 cs)
               | _ \<Rightarrow> True))"

datatype 'a settled = Fulfilled 'a | Rejected js_error

text \<open>What \<^verbatim>\<open>pollTaskStatus\<close> does once \<^verbatim>\<open>getPipelineStatus\<close> has settled.\<close>

definition pollTaskStatus_settle :: "js_runtime \<Rightarrow> jsval settled \<Rightarrow> app_state \<Rightarrow> app_state" where
  "pollTaskStatus_settle rt outcome st =
     (case outcome of
        Rejected err \<Rightarrow> pollTaskStatus_catch rt err st
      | Fulfilled statusData \<Rightarrow>
          (case get_prop statusData ''status'' of
             Inl e \<Rightarrow> pollTaskStatus_catch rt e st
           | Inr s \<Rightarrow>
               let st1 = st\<lparr> status := s \<rparr>
               in if s = JStr ''done'' then
                    (if debug_log_raises statusData
                     then pollTaskStatus_catch rt TypeError (clear_polling st1)
                     else (clear_polling st1)\<lparr> results := opt_prop statusData ''result'',
                                                 loading := False,
                                                 taskId := JNull \<rparr>)
                  else if s = JStr ''failed'' then
                    (clear_polling st1)\<lparr> error := js_or (opt_prop statusData ''error'')
                                                        (JStr ''Pipeline processing failed.''),
                                         loading := False,
                                         taskId := JNull \<rparr>
                  else st1))"

text \<open>The callback given to \<^verbatim>\<open>setInterval\<close>, for the interval with handle \<open>h\<close>. An
  interval that has been cleared does not fire.\<close>

definition interval_tick :: "nat \<Rightarrow> app_state \<Rightarrow> app_state" where
  "interval_tick h st =
     (case map_of (timers st) h of
        None \<Rightarrow> st
      | Some tid \<Rightarrow>
          if now st - (case pollingStartTimeRef st of None \<Rightarrow> 0 | Some t \<Rightarrow> t) > MAX_POLLING_TIME
          then (clear_existing st)\<lparr> error := JStr ''Pipeline processing took too long. Please try again or contact support.'',
                                    loading := False,
                                    taskId := JNull \<rparr>
          else pollTaskStatus_call tid st)"

text \<open>The body of the polling effect, run with the current \<open>taskId\<close>.\<close>

definition polling_effect :: "app_state \<Rightarrow> app_state" where
  "polling_effect st =
     (if \<not> truthy (taskId st)
      then st\<lparr> effect_taskId := taskId st, effect_cleanup := False \<rparr>
      else
        let st1 = clear_existing st;
            st2 = st1\<lparr> pollingStartTimeRef := Some (now st1) \<rparr>;
            st3 = pollTaskStatus_call (taskId st2) st2;
            h = next_handle st3
        in st3\<lparr> timers := timers st3 @ [(h, taskId st3)],
                 next_handle := Suc h,
                 pollingIntervalRef := Some h,
                 effect_taskId := taskId st3,
                 effect_cleanup := True \<rparr>)"

text \<open>The cleanup function the polling effect returns.\<close>

definition polling_effect_cleanup :: "app_state \<Rightarrow> app_state" where
  "polling_effect_cleanup st = (if effect_cleanup st then clear_polling st else st)"

text \<open>
  A commit of the component: the polling effect has the dependency list
  \<^verbatim>\<open>[taskId]\<close>, so when \<open>taskId\<close> differs from the value of the last run, the cleanup of
  that run is called and the body runs again.
\<close>

definition commit :: "app_state \<Rightarrow> app_state" where
  "commit st =
     (if mounted st \<and> taskId st \<noteq> effect_taskId st
      then polling_effect (polling_effect_cleanup st)
      else st)"

text \<open>Unmounting runs the cleanup of the first effect and that of the polling effect.\<close>

definition unmount :: "app_state \<Rightarrow> app_state" where
  "unmount st = (polling_effect_cleanup (clear_existing st))\<lparr> mounted := False \<rparr>"

text \<open>\<^verbatim>\<open>handleFileSelect\<close> up to its \<^verbatim>\<open>await\<close>.\<close>

definition handleFileSelect_begin :: "string \<Rightarrow> app_state \<Rightarrow> app_state" where
  "handleFileSelect_begin selectedFile st =
     clear_polling
       (st\<lparr> file_sel := Some selectedFile,
            error := JNull,
            results := JNull,
            status := JNull,
            loading := True,
            taskId := JNull,
            normalizedCustomers := [],
            filteredCustomers := [],
            expandedCardId := JNull,
            activeFilter := ''all'',
            searchQuery := [],
            planTypeFilter := [],
            contractTypeFilter := [],
            regionFilter := [] \<rparr>)"

text \<open>The \<^verbatim>\<open>catch\<close> block of \<^verbatim>\<open>handleFileSelect\<close>.\<close>

definition handleFileSelect_catch :: "js_runtime \<Rightarrow> js_error \<Rightarrow> app_state \<Rightarrow> app_state" where
  "handleFileSelect_catch rt err st =
     st\<lparr> error := js_or (error_message rt err)
                         (JStr ''An error occurred while uploading the file.''),
          loading := False \<rparr>"

text \<open>\<^verbatim>\<open>handleFileSelect\<close> once \<^verbatim>\<open>runPipeline\<close> has settled.\<close>

definition handleFileSelect_settle :: "js_runtime \<Rightarrow> jsval settled \<Rightarrow> app_state \<Rightarrow> app_state" where
  "handleFileSelect_settle rt outcome st =
     (case outcome of
        Rejected err \<Rightarrow> handleFileSelect_catch rt err st
      | Fulfilled data \<Rightarrow>
          (case get_prop data ''task_id'' of
             Inl e \<Rightarrow> handleFileSelect_catch rt e st
           | Inr t \<Rightarrow> st\<lparr> taskId := t \<rparr>))"

text \<open>The clock moves on by \<open>d\<close> milliseconds.\<close>

definition advance :: "nat \<Rightarrow> app_state \<Rightarrow> app_state" where
  "advance d st = st\<lparr> now := now st + int d \<rparr>"

text \<open>The events that reach the poller, in any interleaving.\<close>

datatype event =
    HandleFileSelect string
  | PipelineSettled "jsval settled"
  | StatusSettled "jsval settled"
  | SetTaskId jsval
  | Commit
  | Tick nat
  | Advance nat
  | Unmount

fun step :: "js_runtime \<Rightarrow> event \<Rightarrow> app_state \<Rightarrow> app_state" where
  "step rt (HandleFileSelect f) st = handleFileSelect_begin f st"
| "step rt (PipelineSettled outcome) st = handleFileSelect_settle rt outcome st"
| "step rt (StatusSettled outcome) st = pollTaskStatus_settle rt outcome st"
| "step rt (SetTaskId t) st = st\<lparr> taskId := t \<rparr>"
| "step rt Commit st = commit st"
| "step rt (Tick h) st = interval_tick h st"
| "step rt (Advance d) st = advance d st"
| "step rt Unmount st = unmount st"

definition run :: "js_runtime \<Rightarrow> event list \<Rightarrow> app_state \<Rightarrow> app_state" where
  "run rt es st = fold (step rt) es st"

text \<open>One period of the timer: every live interval fires once.\<close>

definition tick_all :: "app_state \<Rightarrow> app_state" where
  "tick_all st = fold interval_tick (map fst (timers st)) st"

text \<open>The clock moves on by \<open>d\<close> milliseconds and the timer period ends.\<close>

definition tick_after :: "nat \<Rightarrow> app_state \<Rightarrow> app_state" where
  "tick_after d st = tick_all (advance d st)"

text \<open>The state of a poller that has given up: no live interval, the timeout
  message as the error, no task.\<close>

definition timed_out :: "app_state \<Rightarrow> app_state" where
  "timed_out st =
     st\<lparr> timers := [],
          error := JStr ''Pipeline processing took too long. Please try again or contact support.'',
          loading := False,
          taskId := JNull \<rparr>"

text \<open>The invariant of the poller: there is no live interval, or there is exactly
  one and \<^verbatim>\<open>pollingIntervalRef\<close> holds its handle.\<close>

definition poller_inv :: "app_state \<Rightarrow> bool" where
  "poller_inv st =
     (case timers st of
        [] \<Rightarrow> True
      | [(h, tid)] \<Rightarrow> pollingIntervalRef st = Some h
      | _ \<Rightarrow> False)"

text \<open>A live interval belongs to the last run of the polling effect: the
  component is mounted, that run had a task id and returned a cleanup.\<close>

definition interval_owned :: "app_state \<Rightarrow> bool" where
  "interval_owned st =
     (timers st = [] \<or> (effect_cleanup st \<and> truthy (effect_taskId st) \<and> mounted st))"

text \<open>Stopping: the task id is cleared and the component commits.\<close>

definition stop_polling :: "js_runtime \<Rightarrow> app_state \<Rightarrow> app_state" where
  "stop_polling rt st = step rt Commit (step rt (SetTaskId JNull) st)"

section \<open>Normalization effect\<close>

text \<open>
  The effect with the dependency list \<^verbatim>\<open>[results]\<close>: it calls
  \<open>normalizeCustomerData\<close> only behind the guard
  \<^verbatim>\<open>results && results.customer_churn\<close> and \<^verbatim>\<open>Array.isArray(results.customer_churn)\<close>,
  and clears both entity lists otherwise.
\<close>

definition normalize_effect :: "js_runtime \<Rightarrow> app_state \<Rightarrow> js_error + app_state" where
  "normalize_effect rt st =
     (if truthy (results st) \<and> truthy (opt_prop (results st) ''customer_churn'') then
        (if isArray (opt_prop (results st) ''customer_churn'') then
           (case normalizeCustomerData rt (results st) of
              Inl e \<Rightarrow> Inl e
            | Inr normalized \<Rightarrow>
                Inr (st\<lparr> normalizedCustomers := normalized,
                          filteredCustomers := normalized \<rparr>))
         else Inr (st\<lparr> normalizedCustomers := [], filteredCustomers := [] \<rparr>))
      else Inr (st\<lparr> normalizedCustomers := [], filteredCustomers := [] \<rparr>))"

section \<open>View Pipeline\<close>

definition bindE :: "js_error + 'a \<Rightarrow> ('a \<Rightarrow> js_error + 'b) \<Rightarrow> js_error + 'b" where
  "bindE m f = (case m of Inl e \<Rightarrow> Inl e | Inr x \<Rightarrow> f x)"

text \<open>\<^verbatim>\<open>Array.prototype.filter\<close> with a callback that can raise: the callback is
  called on every element in order, and the first exception ends the loop.\<close>

fun filterE :: "('a \<Rightarrow> js_error + bool) \<Rightarrow> 'a list \<Rightarrow> js_error + 'a list" where
  "filterE p [] = Inr []"
| "filterE p (x # xs) =
     (case p x of
        Inl e \<Rightarrow> Inl e
      | Inr b \<Rightarrow> (case filterE p xs of
                    Inl e \<Rightarrow> Inl e
                  | Inr ys \<Rightarrow> Inr (if b then x # ys else ys)))"

text \<open>The callbacks of the filter stages. A callback that returns a falsy value
  rejects the element.\<close>

definition tier_pred :: "string \<Rightarrow> customer \<Rightarrow> js_error + bool" where
  "tier_pred f c =
     (if f = ''critical'' then Inr (risk_level c = high \<and> churn_probability c \<ge> 90)
      else if f = ''high'' then
        Inr (risk_level c = high \<and> churn_probability c \<ge> 70 \<and> churn_probability c < 90)
      else Inr (risk_level c = low))"

text \<open>\<^verbatim>\<open>v && v.toLowerCase() === f.toLowerCase()\<close>\<close>

definition matches_ci :: "jsval \<Rightarrow> string \<Rightarrow> js_error + bool" where
  "matches_ci v f =
     (if truthy v
      then (case toLowerCase_val v of Inl e \<Rightarrow> Inl e | Inr s \<Rightarrow> Inr (s = toLowerCase f))
      else Inr False)"

definition planType_of :: "customer \<Rightarrow> jsval" where
  "planType_of c =
     js_or (js_or (internet_service c) (opt_prop (feature_values c) ''InternetService''))
           (opt_prop (feature_values c) ''internet_service'')"

definition contractType_of :: "customer \<Rightarrow> jsval" where
  "contractType_of c =
     js_or (js_or (contract_type c) (opt_prop (feature_values c) ''Contract''))
           (opt_prop (feature_values c) ''contract'')"

definition region_of :: "customer \<Rightarrow> jsval" where
  "region_of c =
     js_or (opt_prop (feature_values c) ''Region'') (opt_prop (feature_values c) ''region'')"

definition planType_pred :: "string \<Rightarrow> customer \<Rightarrow> js_error + bool" where
  "planType_pred f c = matches_ci (planType_of c) f"

definition contractType_pred :: "string \<Rightarrow> customer \<Rightarrow> js_error + bool" where
  "contractType_pred f c = matches_ci (contractType_of c) f"

definition region_pred :: "string \<Rightarrow> customer \<Rightarrow> js_error + bool" where
  "region_pred f c = matches_ci (region_of c) f"

text \<open>\<^verbatim>\<open>c.id.toLowerCase().includes(query)\<close>, with \<open>query\<close> the lowered search text.\<close>

definition search_pred :: "string \<Rightarrow> customer \<Rightarrow> js_error + bool" where
  "search_pred q c =
     (case toLowerCase_val (customer_id c) of
        Inl e \<Rightarrow> Inl e
      | Inr s \<Rightarrow> Inr (includes_str s (toLowerCase q)))"

text \<open>The five filter stages. Each one is skipped when its filter is not set.\<close>

datatype stage = TierStage | PlanTypeStage | ContractTypeStage | RegionStage | SearchStage

fun stage_active :: "app_state \<Rightarrow> stage \<Rightarrow> bool" where
  "stage_active st TierStage =
     (activeFilter st = ''critical'' \<or> activeFilter st = ''high'' \<or> activeFilter st = ''low'')"
| "stage_active st PlanTypeStage = (planTypeFilter st \<noteq> [])"
| "stage_active st ContractTypeStage = (contractTypeFilter st \<noteq> [])"
| "stage_active st RegionStage = (regionFilter st \<noteq> [])"
| "stage_active st SearchStage = (searchQuery st \<noteq> [])"

fun stage_pred :: "app_state \<Rightarrow> stage \<Rightarrow> customer \<Rightarrow> js_error + bool" where
  "stage_pred st TierStage = tier_pred (activeFilter st)"
| "stage_pred st PlanTypeStage = planType_pred (planTypeFilter st)"
| "stage_pred st ContractTypeStage = contractType_pred (contractTypeFilter st)"
| "stage_pred st RegionStage = region_pred (regionFilter st)"
| "stage_pred st SearchStage = search_pred (searchQuery st)"

definition run_stage :: "app_state \<Rightarrow> stage \<Rightarrow> customer list \<Rightarrow> js_error + customer list" where
  "run_stage st s cs = (if stage_active st s then filterE (stage_pred st s) cs else Inr cs)"

text \<open>A sequence of stages, each applied to the result of the one before.\<close>

fun run_stages :: "app_state \<Rightarrow> stage list \<Rightarrow> customer list \<Rightarrow> js_error + customer list" where
  "run_stages st [] cs = Inr cs"
| "run_stages st (s # ss) cs = bindE (run_stage st s cs) (run_stages st ss)"

text \<open>The stages in the order of the source.\<close>

definition apply_filters :: "app_state \<Rightarrow> customer list \<Rightarrow> js_error + customer list" where
  "apply_filters st cs =
     bindE (run_stage st TierStage cs) (\<lambda>f1.
     bindE (run_stage st PlanTypeStage f1) (\<lambda>f2.
     bindE (run_stage st ContractTypeStage f2) (\<lambda>f3.
     bindE (run_stage st RegionStage f3) (\<lambda>f4.
     run_stage st SearchStage f4))))"

subsection \<open>Sorting\<close>

text \<open>
  \<^verbatim>\<open>Array.prototype.sort(compare)\<close> is stable, and a consistent comparator
  determines its result; it is modelled by insertion from the right, which
  places an element before the first element it does not compare greater than.
  An exception of the comparator ends the sort.
\<close>

fun insertE :: "('a \<Rightarrow> 'a \<Rightarrow> js_error + real) \<Rightarrow> 'a \<Rightarrow> 'a list \<Rightarrow> js_error + 'a list" where
  "insertE cmp x [] = Inr [x]"
| "insertE cmp x (y # ys) =
     (case cmp x y of
        Inl e \<Rightarrow> Inl e
      | Inr r \<Rightarrow>
          if r \<le> 0 then Inr (x # y # ys)
          else (case insertE cmp x ys of
                  Inl e \<Rightarrow> Inl e
                | Inr zs \<Rightarrow> Inr (y # zs)))"

fun sortE :: "('a \<Rightarrow> 'a \<Rightarrow> js_error + real) \<Rightarrow> 'a list \<Rightarrow> js_error + 'a list" where
  "sortE cmp [] = Inr []"
| "sortE cmp (x # xs) = bindE (sortE cmp xs) (insertE cmp x)"

text \<open>\<^verbatim>\<open>v.match(/\d+/)?.[0]\<close> on a string: its first run of decimal digits, empty when
  it has none.\<close>

definition first_digit_run :: "string \<Rightarrow> string" where
  "first_digit_run s = takeWhile is_digit (dropWhile (\<lambda>c. \<not> is_digit c) s)"

text \<open>\<^verbatim>\<open>parseInt(v.match(/\d+/)?.[0] || '0')\<close>: the double nearest to the integer
  that the first digit run denotes, \<open>0\<close> when there is none. Only a string has
  \<^verbatim>\<open>match\<close>. (The standard lets an engine drop the decimal digits after the 20th;
  the model keeps them.)\<close>

fun id_number :: "jsval \<Rightarrow> js_error + real" where
  "id_number (JStr s) =
     Inr (round64 (real (parseInt_digits
            (if first_digit_run s = [] then ''0'' else first_digit_run s))))"
| "id_number v = Inl TypeError"

text \<open>\<^verbatim>\<open>b.churn_probability - a.churn_probability\<close> and its converse. The
  difference of two doubles rounds to a double of the same sign, and to \<open>0\<close> only
  when they are equal, so the exact difference stands for it.\<close>

definition cmp_probability_desc :: "customer \<Rightarrow> customer \<Rightarrow> js_error + real" where
  "cmp_probability_desc a b = Inr (churn_probability b - churn_probability a)"

definition cmp_probability_asc :: "customer \<Rightarrow> customer \<Rightarrow> js_error + real" where
  "cmp_probability_asc a b = Inr (churn_probability a - churn_probability b)"

definition cmp_id_asc :: "js_runtime \<Rightarrow> customer \<Rightarrow> customer \<Rightarrow> js_error + real" where
  "cmp_id_asc rt a b =
     bindE (id_number (customer_id a)) (\<lambda>numA.
     bindE (id_number (customer_id b)) (\<lambda>numB.
       if numA \<noteq> numB then Inr (numA - numB)
       else Inr (localeCompare rt (to_js_string rt (customer_id a))
                                  (to_js_string rt (customer_id b)))))"

definition sort_stage :: "js_runtime \<Rightarrow> string \<Rightarrow> customer list \<Rightarrow> js_error + customer list" where
  "sort_stage rt skey cs =
     (if skey = ''probability-desc'' \<or> skey = ''highest-risk''
        then sortE cmp_probability_desc cs
      else if skey = ''lowest-risk'' then sortE cmp_probability_asc cs
      else if skey = ''id-asc'' then sortE (cmp_id_asc rt) cs
      else Inr cs)"

text \<open>The view of the entity list \<open>cs\<close> under the query held in the state.\<close>

definition computeView :: "js_runtime \<Rightarrow> app_state \<Rightarrow> customer list \<Rightarrow> js_error + customer list" where
  "computeView rt st cs = bindE (apply_filters st cs) (sort_stage rt (sortType st))"

text \<open>The effect that applies filters, search and sorting.\<close>

definition filter_effect :: "js_runtime \<Rightarrow> app_state \<Rightarrow> js_error + app_state" where
  "filter_effect rt st =
     bindE (computeView rt st (normalizedCustomers st))
           (\<lambda>filtered. Inr (st\<lparr> filteredCustomers := filtered \<rparr>))"

section \<open>Virtualized Grid Renderer\<close>

definition BASE_ROW_HEIGHT :: nat where
  "BASE_ROW_HEIGHT = 420"

definition EXPANDED_ROW_HEIGHT :: nat where
  "EXPANDED_ROW_HEIGHT = 790"

text \<open>\<^verbatim>\<open>a === b\<close>. Primitive values are compared by value. Two arrays or two
  objects are compared by identity in JavaScript, which a value does not carry:
  the equation is exact whenever one side is a primitive value.\<close>

definition strict_eq :: "jsval \<Rightarrow> jsval \<Rightarrow> bool" where
  "strict_eq a b = (a = b)"

definition getItemSize :: "customer list \<Rightarrow> jsval \<Rightarrow> nat \<Rightarrow> nat \<Rightarrow> nat" where
  "getItemSize customers expandedId columnCount index =
     (let startIndex = index * columnCount;
          endIndex = min (startIndex + columnCount) (length customers)
      in if list_ex (\<lambda>i. strict_eq (customer_id (customers ! i)) expandedId)
                    [startIndex..<endIndex]
         then EXPANDED_ROW_HEIGHT
         else BASE_ROW_HEIGHT)"

text \<open>\<^verbatim>\<open>handleCardToggle\<close> of the list page.\<close>

definition handleCardToggle :: "jsval \<Rightarrow> app_state \<Rightarrow> app_state" where
  "handleCardToggle cardId st =
     st\<lparr> expandedCardId := (if strict_eq (expandedCardId st) cardId then JNull else cardId) \<rparr>"

section \<open>Well-typed views and the selection of a query\<close>

text \<open>A value on which \<^verbatim>\<open>v && v.toLowerCase()\<close> does not raise.\<close>

definition string_or_falsy :: "jsval \<Rightarrow> bool" where
  "string_or_falsy v = (is_string v \<or> \<not> truthy v)"

text \<open>An entity as the data model types it: the id is a string, and each
  categorical field a filter reads is a string or is absent.\<close>

definition customer_well_typed :: "customer \<Rightarrow> bool" where
  "customer_well_typed c =
     (is_string (customer_id c) \<and> string_or_falsy (planType_of c) \<and>
      string_or_falsy (contractType_of c) \<and> string_or_falsy (region_of c))"

definition view_well_typed :: "customer list \<Rightarrow> bool" where
  "view_well_typed cs = list_all customer_well_typed cs"

text \<open>The filter stages in the order of the source.\<close>

definition all_stages :: "stage list" where
  "all_stages = [TierStage, PlanTypeStage, ContractTypeStage, RegionStage, SearchStage]"

text \<open>An entity passes a stage when the stage is not active or its callback
  returns true.\<close>

definition passes :: "app_state \<Rightarrow> stage \<Rightarrow> customer \<Rightarrow> bool" where
  "passes st s c =
     (if stage_active st s
      then (case stage_pred st s c of Inl e \<Rightarrow> False | Inr b \<Rightarrow> b)
      else True)"

text \<open>An entity is selected when it passes every stage.\<close>

definition selected :: "app_state \<Rightarrow> customer \<Rightarrow> bool" where
  "selected st c = list_all (\<lambda>s. passes st s c) all_stages"

text \<open>The order of \<^verbatim>\<open>id-asc\<close>: the number \<^verbatim>\<open>parseInt\<close> gives the first digit run of
  the id, then \<open>localeCompare\<close> on the whole id.\<close>

definition id_text :: "customer \<Rightarrow> string" where
  "id_text c = (case customer_id c of JStr s \<Rightarrow> s | _ \<Rightarrow> [])"

definition id_key :: "customer \<Rightarrow> real" where
  "id_key c = (case id_number (customer_id c) of Inl e \<Rightarrow> 0 | Inr n \<Rightarrow> n)"

text \<open>The number the \<^verbatim>\<open>id-asc\<close> comparator returns on two entities with string ids.\<close>

definition id_cmp :: "js_runtime \<Rightarrow> customer \<Rightarrow> customer \<Rightarrow> real" where
  "id_cmp rt a b =
     (if id_key a \<noteq> id_key b then id_key a - id_key b
      else localeCompare rt (id_text a) (id_text b))"

definition id_asc_le :: "js_runtime \<Rightarrow> customer \<Rightarrow> customer \<Rightarrow> bool" where
  "id_asc_le rt a b =
     (id_key a < id_key b \<or>
      (id_key a = id_key b \<and> localeCompare rt (id_text a) (id_text b) \<le> 0))"

text \<open>\<open>localeCompare\<close> is a consistent comparator on the strings \<open>ss\<close>: any two
  of them are comparable, and the comparison is transitive.\<close>

definition consistent_compare :: "js_runtime \<Rightarrow> string list \<Rightarrow> bool" where
  "consistent_compare rt ss =
     (list_all (\<lambda>a. list_all (\<lambda>b. localeCompare rt a b \<le> 0 \<or> localeCompare rt b a \<le> 0) ss) ss \<and>
      list_all (\<lambda>a. list_all (\<lambda>b. list_all (\<lambda>c.
          if localeCompare rt a b \<le> 0 \<and> localeCompare rt b c \<le> 0
          then localeCompare rt a c \<le> 0 else True) ss) ss) ss)"

section \<open>Sample data\<close>

text \<open>A runtime instance on which examples are evaluated: code-unit comparison for
  \<open>localeCompare\<close>, unsigned decimal numerals for \<open>parseFloat\<close>.\<close>

definition code_unit_compare :: "string \<Rightarrow> string \<Rightarrow> real" where
  "code_unit_compare a b =
     (if a = b then 0
      else if (a, b) \<in> lexord {(c, d). (of_char c :: nat) < of_char d} then - 1 else 1)"

definition sample_runtime :: js_runtime where
  "sample_runtime =
     \<lparr> parseFloat = (\<lambda>s. if s \<noteq> [] \<and> list_all is_digit s
                           then Some (round64 (real (parseInt_digits s))) else None),
       numberToString = (\<lambda>x. string_of_nat (nat \<lfloor>x\<rfloor>)),
       localeCompare = code_unit_compare,
       typeErrorMessage = ''TypeError'' \<rparr>"

definition sample_scores :: "jsval list" where
  "sample_scores =
     [JObj [(''id'', JStr ''entity-1''), (''churn_probability'', JNum 0.5)],
      JObj [(''churn_probability'', JNum 72)]]"

definition sample_payload :: jsval where
  "sample_payload = JObj [(''customer_churn'', JArr sample_scores)]"

text \<open>The doubles that the JSON numbers \<^verbatim>\<open>0.07\<close> and \<^verbatim>\<open>0.7000000000000001\<close> denote.\<close>

definition rounding_payload :: jsval where
  "rounding_payload =
     JObj [(''customer_churn'',
            JArr [JObj [(''churn_probability'', JNum (1261007895663739 / 18014398509481984))],
                  JObj [(''churn_probability'', JNum (6305039478318695 / 9007199254740992))]])]"

definition out_of_range_payload :: jsval where
  "out_of_range_payload =
     JObj [(''customer_churn'',
            JArr [JObj [(''churn_probability'', JNum 150)],
                  JObj [(''churn_probability'', JNum (- 5))]])]"

text \<open>A job that has been polling for \<open>d\<close> milliseconds without an answer.\<close>

definition polling_state_at :: "nat \<Rightarrow> app_state" where
  "polling_state_at d =
     run sample_runtime
       [HandleFileSelect ''data.csv'', Commit,
        PipelineSettled (Fulfilled (JObj [(''task_id'', JStr ''task-1'')])), Commit,
        Advance d]
       initial_state"

text \<open>Two uploads in quick succession: the first job is being polled when the
  second upload returns its task id.\<close>

definition second_start_state :: app_state where
  "second_start_state =
     run sample_runtime
       [HandleFileSelect ''first.csv'', HandleFileSelect ''second.csv'', Commit,
        PipelineSettled (Fulfilled (JObj [(''task_id'', JStr ''task-1'')])), Commit,
        Advance 5000, Tick 1,
        PipelineSettled (Fulfilled (JObj [(''task_id'', JStr ''task-2'')]))]
       initial_state"

definition sample_customer :: "string \<Rightarrow> real \<Rightarrow> customer" where
  "sample_customer i p =
     \<lparr> customer_id = JStr i, churn_probability = p, risk_level = calculateRiskLevel p,
       reason = JStr [], strategy = JStr [], feature_values = JObj [],
       shap_feature_values = JObj [], contract_type = JStr [], internet_service = JStr [],
       monthly_charges = JNull \<rparr>"

definition nine_entities :: "customer list" where
  "nine_entities =
     [sample_customer ''entity-1'' 10, sample_customer ''entity-2'' 20,
      sample_customer ''entity-3'' 30, sample_customer ''entity-4'' 40,
      sample_customer ''entity-5'' 50, sample_customer ''entity-6'' 60,
      sample_customer ''entity-7'' 70, sample_customer ''entity-8'' 80,
      sample_customer ''entity-9'' 90]"

definition three_entities :: "customer list" where
  "three_entities =
     [sample_customer ''entity-11'' 10, sample_customer ''entity-2'' 20,
      sample_customer ''entity-1'' 30]"

definition tied_entities :: "customer list" where
  "tied_entities =
     [sample_customer ''b-7'' 10, sample_customer ''a-7'' 20, sample_customer ''a-2'' 30]"

definition four_entities :: "customer list" where
  "four_entities =
     [sample_customer ''entity-1'' 95, sample_customer ''entity-2'' 72,
      sample_customer ''entity-3'' 39, sample_customer ''entity-4'' 91]"

text \<open>Two ids whose digit runs differ only beyond the precision of a double.\<close>

definition big_run_entities :: "customer list" where
  "big_run_entities =
     [sample_customer ''b-9007199254740992'' 10, sample_customer ''a-9007199254740993'' 20]"

definition critical_state :: app_state where
  "critical_state =
     initial_state\<lparr> normalizedCustomers := four_entities, activeFilter := ''critical'',
                    searchQuery := ''ENTITY'' \<rparr>"

section \<open>Properties of double-precision rounding\<close>

lemma pow2_pos: "0 < pow2 k"
  by (simp add: pow2_def)

lemma pow2_nonneg: "0 \<le> pow2 k"
  by (simp add: pow2_def)

lemma pow2_powr: "pow2 k = 2 powr (of_int k)"
  by (simp add: pow2_def powr_real_of_int field_simps)

lemma pow2_mono: "k \<le> l \<Longrightarrow> pow2 k \<le> pow2 l"
  unfolding pow2_powr by (rule powr_mono) simp_all

lemma binade_eq:
  assumes "pow2 k \<le> \<bar>x\<bar>" and "\<bar>x\<bar> < pow2 (k + 1)" and "- 1022 \<le> k"
  shows "binade x = k"
proof -
  have pos: "0 < \<bar>x\<bar>" using assms(1) pow2_pos [of k] by linarith
  have "\<lfloor>log 2 \<bar>x\<bar>\<rfloor> = k"
    using assms(1,2) pos by (simp add: floor_log_eq_powr_iff pow2_powr)
  then show ?thesis using assms(3) by (simp add: binade_def)
qed

lemma round_even_of_int [simp]: "round_even (of_int z) = z"
  by (simp add: round_even_def)

lemma round_even_le:
  assumes "y \<le> of_int k"
  shows "round_even y \<le> k"
proof (cases "\<lfloor>y\<rfloor> = k")
  case True
  then have "of_int k \<le> y" by (metis of_int_floor_le)
  with assms have "y = of_int k" by simp
  then show ?thesis by simp
next
  case False
  have "\<lfloor>y\<rfloor> \<le> k" using assms by (simp add: floor_le_iff)
  with False have "\<lfloor>y\<rfloor> + 1 \<le> k" by simp
  then show ?thesis by (simp add: round_even_def)
qed

lemma round_even_nonneg:
  assumes "0 \<le> y"
  shows "0 \<le> round_even y"
proof -
  have "0 \<le> \<lfloor>y\<rfloor>" using assms by simp
  then show ?thesis by (simp add: round_even_def)
qed

lemma binade_le:
  assumes "x \<noteq> 0" and "\<bar>x\<bar> < pow2 (k + 1)" and "- 1022 \<le> k"
  shows "binade x \<le> k"
proof -
  have "log 2 \<bar>x\<bar> < of_int (k + 1)"
    using assms(1,2) by (simp add: log_less_iff pow2_powr)
  then have "\<lfloor>log 2 \<bar>x\<bar>\<rfloor> \<le> k" by (simp add: floor_le_iff)
  then show ?thesis using assms(3) by (simp add: binade_def)
qed

lemma round64_range_100:
  assumes "0 \<le> x" and "x \<le> 100"
  shows "0 \<le> round64 x \<and> round64 x \<le> 100"
proof (cases "x = 0")
  case True
  then show ?thesis by (simp add: round64_def)
next
  case False
  define k where "k = binade x - 52"
  have "\<bar>x\<bar> < pow2 (6 + 1)" using assms by (simp add: pow2_def)
  from binade_le [OF False this] have k: "k \<le> - 46" by (simp add: k_def)
  have small: "\<not> pow2 1024 \<le> \<bar>x\<bar>"
  proof -
    have "(100 :: real) < 2 ^ 1024" by simp
    then show ?thesis using assms by (simp add: pow2_def)
  qed
  have r: "round64 x = of_int (round_even (x / pow2 k)) * pow2 k"
    using False small by (simp add: round64_def k_def)
  have p: "pow2 k = 1 / 2 ^ nat (- k)" using k by (simp add: pow2_def)
  have "x / pow2 k \<le> of_int (100 * 2 ^ nat (- k))"
    using assms(2) by (simp add: p)
  from round_even_le [OF this] have "of_int (round_even (x / pow2 k)) * pow2 k \<le> 100"
    unfolding p by (simp add: field_simps) (metis of_int_le_iff of_int_mult of_int_numeral of_int_power)
  moreover have "0 \<le> x / pow2 k"
    using assms(1) pow2_pos [of k] by (intro divide_nonneg_pos)
  from round_even_nonneg [OF this] have "0 \<le> of_int (round_even (x / pow2 k)) * pow2 k"
    by (intro mult_nonneg_nonneg) (simp_all add: pow2_nonneg)
  ultimately show ?thesis unfolding r by simp
qed

lemma round64_of_nat:
  assumes "n < 2 ^ 53"
  shows "round64 (real n) = real n"
proof (cases "n = 0")
  case True
  then show ?thesis by (simp add: round64_def)
next
  case False
  define e where "e = binade (real n)"
  have ge: "0 \<le> e"
  proof -
    have "1 \<le> real n" using False by simp
    then have "0 \<le> log 2 \<bar>real n\<bar>" by simp
    then show ?thesis by (simp add: e_def binade_def le_max_iff_disj)
  qed
  have "\<bar>real n\<bar> < pow2 (52 + 1)"
  proof -
    have "real n < real (2 ^ 53)" using assms by (simp only: of_nat_less_iff)
    then show ?thesis by (simp add: pow2_def)
  qed
  from binade_le [OF _ this] False have le: "e \<le> 52" by (simp add: e_def)
  have small: "\<not> pow2 1024 \<le> \<bar>real n\<bar>"
  proof -
    have "real n < real (2 ^ 53)" using assms by (simp only: of_nat_less_iff)
    moreover have "(2 :: real) ^ 53 \<le> 2 ^ 1024" by (rule power_increasing) simp_all
    ultimately show ?thesis by (simp add: pow2_def)
  qed
  have p: "pow2 (e - 52) = 1 / 2 ^ nat (52 - e)"
  proof (cases "e = 52")
    case True
    then show ?thesis by (simp add: pow2_def)
  next
    case False
    with le have "e - 52 < 0" by simp
    then show ?thesis by (simp add: pow2_def)
  qed
  have "real n / pow2 (e - 52) = of_int (int n * 2 ^ nat (52 - e))"
    by (simp add: p)
  then have "round_even (real n / pow2 (e - 52)) = int n * 2 ^ nat (52 - e)"
    by (simp only: round_even_of_int)
  then have "of_int (round_even (real n / pow2 (e - 52))) * pow2 (e - 52) = real n"
    by (simp add: p)
  then show ?thesis using False small by (simp add: round64_def e_def)
qed

lemma round64_eval:
  assumes "pow2 k \<le> \<bar>x\<bar>" and "\<bar>x\<bar> < pow2 (k + 1)" and "- 1022 \<le> k" and "k < 1024"
  shows "round64 x = of_int (round_even (x / pow2 (k - 52))) * pow2 (k - 52)"
proof -
  have b: "binade x = k" by (rule binade_eq [OF assms(1,2,3)])
  have nz: "x \<noteq> 0"
  proof
    assume "x = 0"
    with assms(1) have "pow2 k \<le> 0" by simp
    with pow2_pos [of k] show False by linarith
  qed
  have "pow2 (k + 1) \<le> pow2 1024"
    using assms(4) by (intro pow2_mono) simp
  with assms(2) have "\<not> pow2 1024 \<le> \<bar>x\<bar>" by simp
  with nz b show ?thesis by (simp add: round64_def)
qed

lemma round64_numeral:
  assumes "(numeral w :: nat) < 2 ^ 53"
  shows "round64 (numeral w) = numeral w"
  using round64_of_nat [OF assms] by simp

lemma round64_0: "round64 0 = 0"
  by (simp add: round64_def)

lemma round64_1: "round64 1 = 1"
  using round64_of_nat [of 1] by simp

lemmas round64_small = round64_numeral round64_0 round64_1

section \<open>Properties of the Result Normalizer\<close>

lemma map_index_Inr:
  "map_index f xs i = Inr ys \<Longrightarrow>
     length ys = length xs \<and> (\<forall>j < length xs. f (xs ! j) (i + j) = Inr (ys ! j))"
proof (induction xs arbitrary: i ys)
  case Nil
  then show ?case by simp
next
  case (Cons x xs)
  from Cons.prems obtain y ys' where fx: "f x i = Inr y"
    and rest: "map_index f xs (Suc i) = Inr ys'" and ys: "ys = y # ys'"
    by (auto split: sum.splits)
  from Cons.IH [OF rest] have len: "length ys' = length xs"
    and nth: "\<forall>j < length xs. f (xs ! j) (Suc i + j) = Inr (ys' ! j)" by auto
  show ?case
  proof (intro conjI allI impI)
    show "length ys = length (x # xs)" using len ys by simp
  next
    fix j assume "j < length (x # xs)"
    then show "f ((x # xs) ! j) (i + j) = Inr (ys ! j)"
      using fx nth ys by (cases j) auto
  qed
qed

lemma normalizeCustomerData_Inr:
  assumes "normalizeCustomerData rt result = Inr out"
    and "opt_prop result ''customer_churn'' = JArr cs"
  shows "length out = length cs"
    and "\<forall>j < length cs. normalize_entry rt (prop_default result ''customer_reasons'' (JArr []))
            (prop_default result ''retention_strategies'' (JArr []))
            (prop_default result ''customer_insights'' (JObj [])) (cs ! j) j = Inr (out ! j)"
  using assms map_index_Inr [of _ cs 0 out]
  by (auto simp: normalizeCustomerData_def prop_default_def Let_def split: if_splits)

lemma normalize_entry_score:
  assumes "normalize_entry rt rs ss ins cust i = Inr c"
  shows "\<exists>raw. get_prop cust ''churn_probability'' = Inr raw \<and>
           churn_probability c = rescale_score (resolve_score rt raw) \<and>
           risk_level c = calculateRiskLevel (churn_probability c)"
  using assms
  by (auto simp: normalize_entry_def Let_def split: sum.splits)

lemma sample_payload_returns:
  "normalizeCustomerData sample_runtime sample_payload
     = Inr (projr (normalizeCustomerData sample_runtime sample_payload))"
proof -
  have "\<not> isl (normalizeCustomerData sample_runtime sample_payload)"
    by (simp add: normalizeCustomerData_def sample_payload_def sample_scores_def
          prop_default_def opt_prop_def get_prop_def normalize_entry_def Let_def)
  then show ?thesis by simp
qed

lemma js_mul_seven_hundredths:
  "js_mul (1261007895663739 / 18014398509481984) 100 = 7881299347898369 / 1125899906842624"
  unfolding js_mul_def
  by (subst round64_eval [where k = 2]) (simp_all add: pow2_def round_even_def)

lemma js_mul_above_seven_tenths:
  "js_mul (6305039478318695 / 9007199254740992) 100 = 70"
  unfolding js_mul_def
  by (subst round64_eval [where k = 6]) (simp_all add: pow2_def round_even_def)

lemma round64_minus_500: "round64 (- 500) = - 500"
  by (subst round64_eval [where k = 8]) (simp_all add: pow2_def round_even_def)

text \<open>
  C1, as stated, fails: the product is a double. The score \<^verbatim>\<open>0.07\<close> becomes
  \<^verbatim>\<open>7.000000000000001\<close>, which is not 100 times the score, and the score
  \<^verbatim>\<open>0.7000000000000001\<close> becomes exactly 70 and gets the tier \<open>medium\<close>, although 100
  times the score is above 70.
\<close>

theorem score_product_rounded_counterexample:
  "\<not> isl (normalizeCustomerData sample_runtime rounding_payload) \<and>
   map churn_probability (projr (normalizeCustomerData sample_runtime rounding_payload))
     = [7881299347898369 / 1125899906842624, 70] \<and>
   map risk_level (projr (normalizeCustomerData sample_runtime rounding_payload))
     = [low, medium] \<and>
   (7881299347898369 / 1125899906842624 :: real)
     \<noteq> 100 * (1261007895663739 / 18014398509481984) \<and>
   (70 :: real) < 100 * (6305039478318695 / 9007199254740992)"
  by (simp add: normalizeCustomerData_def rounding_payload_def prop_default_def opt_prop_def
        get_prop_def normalize_entry_def Let_def js_or_def rescale_score_def resolve_score_def
        calculateRiskLevel_def js_mul_seven_hundredths js_mul_above_seven_tenths)

text \<open>
  C1, amended. Whenever \<open>normalizeCustomerData\<close> returns, the entry made from a raw
  numeric score \<open>s\<close> has as its score the double product of \<open>s\<close> and 100, which is
  \<open>100 * s\<close> rounded to the nearest double, if \<open>s \<le> 1\<close>, and \<open>s\<close> itself otherwise;
  its tier is \<open>low\<close> exactly when that score is below 40, \<open>medium\<close> exactly when it is
  from 40 to 70 inclusive, and \<open>high\<close> exactly when it is above 70.
\<close>

theorem normalized_score_and_tier:
  assumes "normalizeCustomerData rt result = Inr out"
    and "opt_prop result ''customer_churn'' = JArr cs"
    and "i < length cs"
    and "get_prop (cs ! i) ''churn_probability'' = Inr (JNum s)"
  shows "churn_probability (out ! i) = (if s \<le> 1 then round64 (s * 100) else s) \<and>
         (risk_level (out ! i) = low \<longleftrightarrow> churn_probability (out ! i) < 40) \<and>
         (risk_level (out ! i) = medium \<longleftrightarrow>
            40 \<le> churn_probability (out ! i) \<and> churn_probability (out ! i) \<le> 70) \<and>
         (risk_level (out ! i) = high \<longleftrightarrow> churn_probability (out ! i) > 70)"
proof -
  from normalizeCustomerData_Inr(2) [OF assms(1,2)] assms(3)
  obtain rs ss ins where "normalize_entry rt rs ss ins (cs ! i) i = Inr (out ! i)" by blast
  from normalize_entry_score [OF this] assms(4)
  have cp: "churn_probability (out ! i) = rescale_score s"
    and rl: "risk_level (out ! i) = calculateRiskLevel (churn_probability (out ! i))"
    by (auto simp: resolve_score_def)
  have a: "churn_probability (out ! i) = (if s \<le> 1 then round64 (s * 100) else s)"
    unfolding cp by (simp add: rescale_score_def js_mul_def)
  have b: "(risk_level (out ! i) = low \<longleftrightarrow> churn_probability (out ! i) < 40) \<and>
         (risk_level (out ! i) = medium \<longleftrightarrow>
            40 \<le> churn_probability (out ! i) \<and> churn_probability (out ! i) \<le> 70) \<and>
         (risk_level (out ! i) = high \<longleftrightarrow> churn_probability (out ! i) > 70)"
    unfolding rl by (auto simp: calculateRiskLevel_def)
  from a b show ?thesis by (rule conjI)
qed

theorem normalized_score_and_tier_witness:
  "normalizeCustomerData sample_runtime sample_payload
     = Inr (projr (normalizeCustomerData sample_runtime sample_payload)) \<and>
   opt_prop sample_payload ''customer_churn'' = JArr sample_scores \<and>
   0 < length sample_scores \<and>
   get_prop (sample_scores ! 0) ''churn_probability'' = Inr (JNum 0.5) \<and>
   churn_probability (projr (normalizeCustomerData sample_runtime sample_payload) ! 0) = 50 \<and>
   risk_level (projr (normalizeCustomerData sample_runtime sample_payload) ! 0) = medium"
proof -
  let ?out = "projr (normalizeCustomerData sample_runtime sample_payload)"
  note h1 = sample_payload_returns
  have h2: "opt_prop sample_payload ''customer_churn'' = JArr sample_scores"
    by (simp add: sample_payload_def opt_prop_def get_prop_def)
  have h3: "0 < length sample_scores"
    by (simp add: sample_scores_def)
  have h4: "get_prop (sample_scores ! 0) ''churn_probability'' = Inr (JNum 0.5)"
    by (simp add: sample_scores_def get_prop_def)
  note t = normalized_score_and_tier [OF h1 h2 h3 h4]
  have v: "churn_probability (?out ! 0) = 50"
    using t [THEN conjunct1] by (simp add: round64_small)
  have m: "risk_level (?out ! 0) = medium"
    using t [THEN conjunct2, THEN conjunct2, THEN conjunct1] v by simp
  from h1 h2 h3 h4 v m show ?thesis by (intro conjI)
qed

text \<open>
  C5, as stated, fails: a raw score above 100 is kept as it is, and a negative raw
  score is multiplied by 100. Nothing in \<open>normalizeCustomerData\<close> clamps the score.
\<close>

theorem risk_score_range_counterexample:
  "\<not> isl (normalizeCustomerData sample_runtime out_of_range_payload) \<and>
   map churn_probability (projr (normalizeCustomerData sample_runtime out_of_range_payload))
     = [150, - 500] \<and>
   \<not> ((150 :: real) \<le> 100) \<and> \<not> ((0 :: real) \<le> - 500)"
  by (simp add: normalizeCustomerData_def out_of_range_payload_def prop_default_def opt_prop_def
        get_prop_def normalize_entry_def Let_def js_or_def rescale_score_def resolve_score_def
        calculateRiskLevel_def js_mul_def round64_minus_500)

text \<open>
  C5, amended. Whenever \<open>normalizeCustomerData\<close> returns, an entry whose raw score
  resolves to a number between 0 and 100 has a risk score between 0 and 100.
\<close>

theorem risk_score_in_range:
  assumes "normalizeCustomerData rt result = Inr out"
    and "opt_prop result ''customer_churn'' = JArr cs"
    and "i < length cs"
    and "get_prop (cs ! i) ''churn_probability'' = Inr raw"
    and "0 \<le> resolve_score rt raw" and "resolve_score rt raw \<le> 100"
  shows "0 \<le> churn_probability (out ! i) \<and> churn_probability (out ! i) \<le> 100"
proof -
  from normalizeCustomerData_Inr(2) [OF assms(1,2)] assms(3)
  obtain rs ss ins where "normalize_entry rt rs ss ins (cs ! i) i = Inr (out ! i)" by blast
  from normalize_entry_score [OF this] assms(4)
  have cp: "churn_probability (out ! i) = rescale_score (resolve_score rt raw)"
    by auto
  show ?thesis
  proof (cases "resolve_score rt raw \<le> 1")
    case True
    have "0 \<le> resolve_score rt raw * 100" "resolve_score rt raw * 100 \<le> 100"
      using assms(5) True by simp_all
    from round64_range_100 [OF this] True show ?thesis
      unfolding cp by (simp add: rescale_score_def js_mul_def)
  next
    case False
    then show ?thesis unfolding cp using assms(5,6) by (simp add: rescale_score_def)
  qed
qed

theorem risk_score_in_range_witness:
  "normalizeCustomerData sample_runtime sample_payload
     = Inr (projr (normalizeCustomerData sample_runtime sample_payload)) \<and>
   opt_prop sample_payload ''customer_churn'' = JArr sample_scores \<and>
   1 < length sample_scores \<and>
   get_prop (sample_scores ! 1) ''churn_probability'' = Inr (JNum 72) \<and>
   0 \<le> resolve_score sample_runtime (JNum 72) \<and>
   resolve_score sample_runtime (JNum 72) \<le> 100 \<and>
   0 \<le> churn_probability (projr (normalizeCustomerData sample_runtime sample_payload) ! 1) \<and>
   churn_probability (projr (normalizeCustomerData sample_runtime sample_payload) ! 1) \<le> 100"
proof -
  let ?out = "projr (normalizeCustomerData sample_runtime sample_payload)"
  note h1 = sample_payload_returns
  have h2: "opt_prop sample_payload ''customer_churn'' = JArr sample_scores"
    by (simp add: sample_payload_def opt_prop_def get_prop_def)
  have h3: "1 < length sample_scores"
    by (simp add: sample_scores_def)
  have h4: "get_prop (sample_scores ! 1) ''churn_probability'' = Inr (JNum 72)"
    by (simp add: sample_scores_def get_prop_def)
  have h5: "0 \<le> resolve_score sample_runtime (JNum 72)"
    by (simp add: resolve_score_def)
  have h6: "resolve_score sample_runtime (JNum 72) \<le> 100"
    by (simp add: resolve_score_def)
  from risk_score_in_range [OF h1 h2 h3 h4 h5 h6] h1 h2 h3 h4 h5 h6
  show ?thesis by simp
qed

text \<open>
  C4, as stated, fails: \<open>normalizeCustomerData\<close> raises a \<^verbatim>\<open>TypeError\<close> on a
  \<^verbatim>\<open>null\<close> or \<^verbatim>\<open>undefined\<close> payload and on a \<^verbatim>\<open>customer_churn\<close> that is not an array.
\<close>

theorem normalize_raises_counterexample:
  "normalizeCustomerData sample_runtime JNull = Inl TypeError \<and>
   normalizeCustomerData sample_runtime JUndefined = Inl TypeError \<and>
   normalizeCustomerData sample_runtime (JObj [(''customer_churn'', JStr ''abc'')])
     = Inl TypeError"
  by (simp add: normalizeCustomerData_def prop_default_def opt_prop_def get_prop_def)

lemma normalizeCustomerData_raises:
  assumes "is_nullish r \<or>
           (opt_prop r ''customer_churn'' \<noteq> JUndefined \<and> \<not> isArray (opt_prop r ''customer_churn''))"
  shows "normalizeCustomerData rt r = Inl TypeError"
  using assms
  by (cases "opt_prop r ''customer_churn''")
     (auto simp: normalizeCustomerData_def prop_default_def Let_def)

lemma normalizeCustomerData_no_scores:
  assumes "\<not> is_nullish r" and "opt_prop r ''customer_churn'' = JUndefined"
  shows "normalizeCustomerData rt r = Inr []"
  using assms by (simp add: normalizeCustomerData_def prop_default_def Let_def)

lemma normalize_effect_guard:
  assumes "\<not> truthy (results st) \<or> \<not> isArray (opt_prop (results st) ''customer_churn'')"
  shows "normalize_effect rt st = Inr (st\<lparr> normalizedCustomers := [], filteredCustomers := [] \<rparr>)"
  using assms by (auto simp: normalize_effect_def)

text \<open>
  C4, amended. \<open>normalizeCustomerData\<close> raises a \<^verbatim>\<open>TypeError\<close> on a \<^verbatim>\<open>null\<close> or
  \<^verbatim>\<open>undefined\<close> payload and on a payload whose \<^verbatim>\<open>customer_churn\<close> is present and
  not an array; it returns the empty list on any other payload without
  \<^verbatim>\<open>customer_churn\<close>. The tolerance is that of the state container: its
  normalization effect does not raise and sets both entity lists to the empty
  list whenever the payload is falsy or its \<^verbatim>\<open>customer_churn\<close> is not an array.
\<close>

theorem normalize_tolerance:
  "(is_nullish r1 \<or>
      (opt_prop r1 ''customer_churn'' \<noteq> JUndefined \<and> \<not> isArray (opt_prop r1 ''customer_churn''))
      \<longrightarrow> normalizeCustomerData rt r1 = Inl TypeError) \<and>
   (\<not> is_nullish r2 \<and> opt_prop r2 ''customer_churn'' = JUndefined
      \<longrightarrow> normalizeCustomerData rt r2 = Inr []) \<and>
   (\<not> truthy (results st) \<or> \<not> isArray (opt_prop (results st) ''customer_churn'')
      \<longrightarrow> normalize_effect rt st
            = Inr (st\<lparr> normalizedCustomers := [], filteredCustomers := [] \<rparr>))"
  using normalizeCustomerData_raises [of r1 rt] normalizeCustomerData_no_scores [of r2 rt]
    normalize_effect_guard [of st rt]
  by blast

theorem normalize_tolerance_witness:
  "is_nullish JNull \<and> normalizeCustomerData sample_runtime JNull = Inl TypeError \<and>
   \<not> is_nullish (JObj []) \<and> opt_prop (JObj []) ''customer_churn'' = JUndefined \<and>
   normalizeCustomerData sample_runtime (JObj []) = Inr [] \<and>
   \<not> isArray (opt_prop (results (initial_state\<lparr> results := JObj [(''customer_churn'', JNum 5)] \<rparr>))
                ''customer_churn'') \<and>
   normalize_effect sample_runtime (initial_state\<lparr> results := JObj [(''customer_churn'', JNum 5)] \<rparr>)
     = Inr (initial_state\<lparr> results := JObj [(''customer_churn'', JNum 5)],
                            normalizedCustomers := [], filteredCustomers := [] \<rparr>)"
proof -
  let ?st = "initial_state\<lparr> results := JObj [(''customer_churn'', JNum 5)] \<rparr>"
  have a: "is_nullish JNull" by simp
  have b: "\<not> is_nullish (JObj []) \<and> opt_prop (JObj []) ''customer_churn'' = JUndefined"
    by (simp add: opt_prop_def get_prop_def)
  have c: "\<not> isArray (opt_prop (results ?st) ''customer_churn'')"
    by (simp add: opt_prop_def get_prop_def)
  from normalize_tolerance [of JNull sample_runtime "JObj []" ?st] a b c
  show ?thesis by simp
qed

section \<open>Properties of the Task Poller\<close>

lemma poller_inv_cases:
  "poller_inv st \<longleftrightarrow>
     timers st = [] \<or> (\<exists>h tid. timers st = [(h, tid)] \<and> pollingIntervalRef st = Some h)"
  by (auto simp: poller_inv_def split: list.splits)

lemma timers_clear_existing:
  "poller_inv st \<Longrightarrow> timers (clear_existing st) = []"
  by (auto simp: poller_inv_cases clear_existing_def clearInterval_def split: option.splits)

lemma timers_clear_polling:
  "poller_inv st \<Longrightarrow> timers (clear_polling st) = []"
  by (auto simp: poller_inv_cases clear_polling_def clearInterval_def split: option.splits)

lemma poller_inv_Nil: "timers st = [] \<Longrightarrow> poller_inv st"
  by (simp add: poller_inv_cases)

lemma timers_pollTaskStatus_catch [simp]:
  "timers (pollTaskStatus_catch rt err st) = timers (clear_polling st)"
  by (simp add: pollTaskStatus_catch_def)

lemma clear_polling_idem [simp]: "clear_polling (clear_polling st) = clear_polling st"
  by (simp add: clear_polling_def split: option.splits)

lemma timers_clear_polling_status [simp]:
  "timers (clear_polling (st\<lparr> status := s \<rparr>)) = timers (clear_polling st)"
  by (simp add: clear_polling_def clearInterval_def split: option.splits)

lemma inv_pollTaskStatus_settle:
  assumes "poller_inv st"
  shows "poller_inv (pollTaskStatus_settle rt outcome st)"
proof -
  have "timers (pollTaskStatus_settle rt outcome st) = [] \<or>
        (timers (pollTaskStatus_settle rt outcome st) = timers st \<and>
         pollingIntervalRef (pollTaskStatus_settle rt outcome st) = pollingIntervalRef st)"
    using timers_clear_polling [OF assms]
    by (auto simp: pollTaskStatus_settle_def Let_def split: settled.splits sum.splits)
  then show ?thesis using assms by (auto simp: poller_inv_cases)
qed

lemma inv_handleFileSelect_begin:
  assumes "poller_inv st"
  shows "timers (handleFileSelect_begin f st) = []"
proof -
  let ?st1 = "st\<lparr> file_sel := Some f, error := JNull, results := JNull, status := JNull,
            loading := True, taskId := JNull, normalizedCustomers := [],
            filteredCustomers := [], expandedCardId := JNull, activeFilter := ''all'',
            searchQuery := [], planTypeFilter := [], contractTypeFilter := [],
            regionFilter := [] \<rparr>"
  have "poller_inv ?st1" using assms by (simp add: poller_inv_cases)
  from timers_clear_polling [OF this] show ?thesis
    by (simp add: handleFileSelect_begin_def)
qed

lemma inv_handleFileSelect_settle:
  "poller_inv st \<Longrightarrow> poller_inv (handleFileSelect_settle rt outcome st)"
  by (auto simp: handleFileSelect_settle_def handleFileSelect_catch_def poller_inv_cases
           split: settled.splits sum.splits)

lemma inv_polling_effect_cleanup:
  "poller_inv st \<Longrightarrow> poller_inv (polling_effect_cleanup st)"
  using timers_clear_polling [of st]
  by (auto simp: polling_effect_cleanup_def intro: poller_inv_Nil)

lemma polling_effect_start:
  assumes "poller_inv st" and "truthy (taskId st)"
  shows "timers (polling_effect st) = [(next_handle st, taskId st)]"
    and "pollingIntervalRef (polling_effect st) = Some (next_handle st)"
    and "requests (polling_effect st) = requests st @ [taskId st]"
    and "pollingStartTimeRef (polling_effect st) = Some (now st)"
    and "now (polling_effect st) = now st"
  using assms timers_clear_existing [OF assms(1)]
  by (auto simp: polling_effect_def Let_def pollTaskStatus_call_def clear_existing_def
        clearInterval_def split: option.splits)

lemma inv_polling_effect:
  assumes "poller_inv st"
  shows "poller_inv (polling_effect st)"
proof (cases "truthy (taskId st)")
  case True
  from polling_effect_start(1,2) [OF assms True] show ?thesis
    by (simp add: poller_inv_cases)
next
  case False
  then show ?thesis using assms by (simp add: polling_effect_def poller_inv_cases)
qed

lemma inv_commit: "poller_inv st \<Longrightarrow> poller_inv (commit st)"
  by (simp add: commit_def inv_polling_effect inv_polling_effect_cleanup)

lemma inv_interval_tick:
  assumes "poller_inv st"
  shows "poller_inv (interval_tick h st)"
proof -
  have "timers (interval_tick h st) = [] \<or>
        (timers (interval_tick h st) = timers st \<and>
         pollingIntervalRef (interval_tick h st) = pollingIntervalRef st)"
    using timers_clear_existing [OF assms]
    by (auto simp: interval_tick_def pollTaskStatus_call_def split: option.splits)
  then show ?thesis using assms by (auto simp: poller_inv_cases)
qed

lemma timers_unmount:
  assumes "poller_inv st"
  shows "timers (unmount st) = []"
proof -
  have a: "timers (clear_existing st) = []" by (rule timers_clear_existing [OF assms])
  then have "poller_inv (clear_existing st)" by (rule poller_inv_Nil)
  from a timers_clear_polling [OF this] show ?thesis
    by (simp add: unmount_def polling_effect_cleanup_def)
qed

lemma inv_step: "poller_inv st \<Longrightarrow> poller_inv (step rt e st)"
proof (cases e)
  case (HandleFileSelect f)
  assume "poller_inv st"
  from inv_handleFileSelect_begin [OF this] HandleFileSelect show ?thesis
    by (simp add: poller_inv_Nil)
next
  case (SetTaskId t)
  assume "poller_inv st"
  then show ?thesis using SetTaskId by (simp add: poller_inv_cases)
next
  case (Advance d)
  assume "poller_inv st"
  then show ?thesis using Advance by (simp add: poller_inv_cases advance_def)
next
  case Unmount
  assume "poller_inv st"
  from timers_unmount [OF this] Unmount show ?thesis by (simp add: poller_inv_Nil)
qed (simp_all add: inv_handleFileSelect_settle inv_pollTaskStatus_settle inv_commit inv_interval_tick)

lemma inv_fold: "poller_inv st \<Longrightarrow> poller_inv (fold (step rt) es st)"
  by (induction es arbitrary: st) (simp_all add: inv_step)

lemma inv_run: "poller_inv (run rt es initial_state)"
  unfolding run_def by (rule inv_fold) (simp add: poller_inv_cases initial_state_def)

lemma tick_all_single:
  "timers st = [(h, tid)] \<Longrightarrow> tick_all st = interval_tick h st"
  by (simp add: tick_all_def)

lemma tick_all_none:
  "timers st = [] \<Longrightarrow> tick_all st = st"
  by (simp add: tick_all_def)

lemma interval_tick_polling:
  assumes "timers st = [(h, tid)]" and "pollingIntervalRef st = Some h"
    and "pollingStartTimeRef st = Some t0"
  shows "interval_tick h st =
           (if MAX_POLLING_TIME < now st - t0 then timed_out st else pollTaskStatus_call tid st)"
  using assms
  by (simp add: interval_tick_def clear_existing_def clearInterval_def timed_out_def)

lemma ticks_idle:
  "timers st = [] \<Longrightarrow> requests (fold tick_after ds st) = requests st \<and>
     timers (fold tick_after ds st) = []"
proof (induction ds arbitrary: st)
  case Nil
  then show ?case by simp
next
  case (Cons d ds)
  have "timers (advance d st) = []" using Cons.prems by (simp add: advance_def)
  then have eq: "tick_after d st = advance d st"
    by (simp add: tick_after_def tick_all_none)
  have "timers (tick_after d st) = []" "requests (tick_after d st) = requests st"
    using Cons.prems unfolding eq by (simp_all add: advance_def)
  with Cons.IH [of "tick_after d st"] show ?case by simp
qed

lemma ticks_polling:
  assumes "timers st = [(h, tid)]" and "pollingIntervalRef st = Some h"
    and "pollingStartTimeRef st = Some t0"
    and "now st + int (sum_list ds) - t0 \<le> MAX_POLLING_TIME"
  shows "requests (fold tick_after ds st) = requests st @ replicate (length ds) tid \<and>
         timers (fold tick_after ds st) = [(h, tid)]"
  using assms
proof (induction ds arbitrary: st)
  case Nil
  then show ?case by simp
next
  case (Cons d ds)
  let ?a = "advance d st"
  have a: "timers ?a = [(h, tid)]" "pollingIntervalRef ?a = Some h"
    "pollingStartTimeRef ?a = Some t0" "now ?a = now st + int d" "requests ?a = requests st"
    using Cons.prems by (simp_all add: advance_def)
  have le: "\<not> MAX_POLLING_TIME < now ?a - t0"
    using Cons.prems(4) a(4) by simp
  have eq: "tick_after d st = pollTaskStatus_call tid ?a"
    unfolding tick_after_def tick_all_single [OF a(1)]
    using interval_tick_polling [OF a(1,2,3)] le by simp
  let ?s = "tick_after d st"
  have s: "timers ?s = [(h, tid)]" "pollingIntervalRef ?s = Some h"
    "pollingStartTimeRef ?s = Some t0" "now ?s = now st + int d"
    "requests ?s = requests st @ [tid]"
    unfolding eq using a by (simp_all add: pollTaskStatus_call_def)
  have "now ?s + int (sum_list ds) - t0 \<le> MAX_POLLING_TIME"
    using Cons.prems(4) s(4) by simp
  from Cons.IH [OF s(1,2,3) this] s(5) show ?case
    by (simp add: replicate_app_Cons_same)
qed

lemma commit_start:
  assumes "poller_inv st" and "mounted st" and "truthy (taskId st)"
    and "taskId st \<noteq> effect_taskId st"
  shows "timers (commit st) = [(next_handle st, taskId st)]"
    and "pollingIntervalRef (commit st) = Some (next_handle st)"
    and "requests (commit st) = requests st @ [taskId st]"
    and "pollingStartTimeRef (commit st) = Some (now st)"
    and "now (commit st) = now st"
proof -
  let ?c = "polling_effect_cleanup st"
  have inv: "poller_inv ?c" by (rule inv_polling_effect_cleanup [OF assms(1)])
  have same: "taskId ?c = taskId st" "next_handle ?c = next_handle st"
    "requests ?c = requests st" "now ?c = now st"
    by (simp_all add: polling_effect_cleanup_def clear_polling_def clearInterval_def
          split: option.splits)
  have t: "truthy (taskId ?c)" using assms(3) same by simp
  have c: "commit st = polling_effect ?c" using assms(2,4) by (simp add: commit_def)
  show "timers (commit st) = [(next_handle st, taskId st)]"
    and "pollingIntervalRef (commit st) = Some (next_handle st)"
    and "requests (commit st) = requests st @ [taskId st]"
    and "pollingStartTimeRef (commit st) = Some (now st)"
    and "now (commit st) = now st"
    unfolding c using polling_effect_start [OF inv t] same by simp_all
qed

lemmas eval_poller =
  run_def handleFileSelect_begin_def clear_polling_def commit_def polling_effect_def
  polling_effect_cleanup_def handleFileSelect_settle_def get_prop_def initial_state_def
  Let_def pollTaskStatus_call_def clear_existing_def clearInterval_def interval_tick_def
  MAX_POLLING_TIME_def advance_def

lemma polling_state_at_fields:
  "timers (polling_state_at d) = [(1, JStr ''task-1'')]"
  "pollingIntervalRef (polling_state_at d) = Some 1"
  "pollingStartTimeRef (polling_state_at d) = Some 0"
  "now (polling_state_at d) = int d"
  "requests (polling_state_at d) = [JStr ''task-1'']"
  "taskId (polling_state_at d) = JStr ''task-1''"
  "error (polling_state_at d) = JNull"
  by (simp_all add: polling_state_at_def eval_poller)

lemma second_start_state_fields:
  "timers second_start_state = [(1, JStr ''task-1'')]"
  "next_handle second_start_state = 2"
  "taskId second_start_state = JStr ''task-2''"
  "effect_taskId second_start_state = JStr ''task-1''"
  "mounted second_start_state"
  "requests second_start_state = [JStr ''task-1'', JStr ''task-1'']"
  by (simp_all add: second_start_state_def eval_poller)

lemma owned_Nil: "timers st = [] \<Longrightarrow> interval_owned st"
  by (simp add: interval_owned_def)

lemma owned_same:
  assumes "interval_owned st"
    and "timers st' = [] \<or> timers st' = timers st"
    and "effect_cleanup st' = effect_cleanup st"
    and "effect_taskId st' = effect_taskId st"
    and "mounted st' = mounted st"
  shows "interval_owned st'"
  using assms by (auto simp: interval_owned_def)

lemma clear_polling_fields:
  "effect_cleanup (clear_polling st) = effect_cleanup st"
  "effect_taskId (clear_polling st) = effect_taskId st"
  "mounted (clear_polling st) = mounted st"
  "requests (clear_polling st) = requests st"
  "taskId (clear_polling st) = taskId st"
  by (simp_all add: clear_polling_def clearInterval_def split: option.splits)

lemma clear_existing_fields:
  "effect_cleanup (clear_existing st) = effect_cleanup st"
  "effect_taskId (clear_existing st) = effect_taskId st"
  "mounted (clear_existing st) = mounted st"
  "requests (clear_existing st) = requests st"
  by (simp_all add: clear_existing_def clearInterval_def split: option.splits)

lemma settle_fields:
  "effect_cleanup (pollTaskStatus_settle rt outcome st) = effect_cleanup st"
  "effect_taskId (pollTaskStatus_settle rt outcome st) = effect_taskId st"
  "mounted (pollTaskStatus_settle rt outcome st) = mounted st"
  by (simp_all add: pollTaskStatus_settle_def pollTaskStatus_catch_def Let_def
        clear_polling_fields split: settled.splits sum.splits)

lemma settle_timers:
  assumes "poller_inv st"
  shows "timers (pollTaskStatus_settle rt outcome st) = [] \<or>
         timers (pollTaskStatus_settle rt outcome st) = timers st"
  using timers_clear_polling [OF assms]
  by (auto simp: pollTaskStatus_settle_def Let_def split: settled.splits sum.splits)

lemma tick_fields:
  "effect_cleanup (interval_tick h st) = effect_cleanup st"
  "effect_taskId (interval_tick h st) = effect_taskId st"
  "mounted (interval_tick h st) = mounted st"
  by (simp_all add: interval_tick_def pollTaskStatus_call_def clear_existing_fields
        split: option.splits)

lemma tick_timers:
  assumes "poller_inv st"
  shows "timers (interval_tick h st) = [] \<or> timers (interval_tick h st) = timers st"
  using timers_clear_existing [OF assms]
  by (auto simp: interval_tick_def pollTaskStatus_call_def split: option.splits)

lemma cleanup_timers:
  assumes "poller_inv st" and "interval_owned st"
  shows "timers (polling_effect_cleanup st) = []"
proof (cases "effect_cleanup st")
  case True
  then show ?thesis using timers_clear_polling [OF assms(1)]
    by (simp add: polling_effect_cleanup_def)
next
  case False
  then show ?thesis using assms(2)
    by (simp add: polling_effect_cleanup_def interval_owned_def)
qed

lemma cleanup_fields:
  "mounted (polling_effect_cleanup st) = mounted st"
  "taskId (polling_effect_cleanup st) = taskId st"
  "requests (polling_effect_cleanup st) = requests st"
  by (simp_all add: polling_effect_cleanup_def clear_polling_fields)

lemma polling_effect_idle:
  assumes "\<not> truthy (taskId st)"
  shows "timers (polling_effect st) = timers st" and "requests (polling_effect st) = requests st"
  using assms by (simp_all add: polling_effect_def)

lemma polling_effect_fields:
  "mounted (polling_effect st) = mounted st"
  "truthy (taskId st) \<Longrightarrow> effect_cleanup (polling_effect st)"
  "truthy (taskId st) \<Longrightarrow> effect_taskId (polling_effect st) = taskId st"
  by (simp_all add: polling_effect_def Let_def pollTaskStatus_call_def clear_existing_def
        clearInterval_def split: option.splits)

lemma owned_commit:
  assumes "poller_inv st" and "interval_owned st"
  shows "interval_owned (commit st)"
proof (cases "mounted st \<and> taskId st \<noteq> effect_taskId st")
  case False
  then have "commit st = st" by (auto simp: commit_def)
  with assms(2) show ?thesis by simp
next
  case True
  let ?c = "polling_effect_cleanup st"
  have c: "commit st = polling_effect ?c" using True by (simp add: commit_def)
  have t: "timers ?c = []" by (rule cleanup_timers [OF assms])
  show ?thesis
  proof (cases "truthy (taskId ?c)")
    case False
    from polling_effect_idle(1) [OF False] t show ?thesis
      unfolding c by (simp add: owned_Nil)
  next
    case t2: True
    from polling_effect_fields(2,3) [OF t2] polling_effect_fields(1) [of ?c] True t2
    show ?thesis unfolding c by (simp add: interval_owned_def cleanup_fields)
  qed
qed

lemma owned_step:
  assumes "poller_inv st" and "interval_owned st"
  shows "interval_owned (step rt e st)"
proof (cases e)
  case (HandleFileSelect f)
  from inv_handleFileSelect_begin [OF assms(1)] HandleFileSelect show ?thesis
    by (simp add: owned_Nil)
next
  case (PipelineSettled outcome)
  have "interval_owned (handleFileSelect_settle rt outcome st)"
    by (rule owned_same [OF assms(2)])
       (simp_all add: handleFileSelect_settle_def handleFileSelect_catch_def
          split: settled.splits sum.splits)
  with PipelineSettled show ?thesis by simp
next
  case (StatusSettled outcome)
  have "interval_owned (pollTaskStatus_settle rt outcome st)"
    by (rule owned_same [OF assms(2) settle_timers [OF assms(1)]]) (simp_all add: settle_fields)
  with StatusSettled show ?thesis by simp
next
  case (SetTaskId t)
  have "interval_owned (st\<lparr> taskId := t \<rparr>)"
    by (rule owned_same [OF assms(2)]) simp_all
  with SetTaskId show ?thesis by simp
next
  case Commit
  with owned_commit [OF assms] show ?thesis by simp
next
  case (Tick h)
  have "interval_owned (interval_tick h st)"
    by (rule owned_same [OF assms(2) tick_timers [OF assms(1)]]) (simp_all add: tick_fields)
  with Tick show ?thesis by simp
next
  case (Advance d)
  have "interval_owned (advance d st)"
    by (rule owned_same [OF assms(2)]) (simp_all add: advance_def)
  with Advance show ?thesis by simp
next
  case Unmount
  from timers_unmount [OF assms(1)] Unmount show ?thesis by (simp add: owned_Nil)
qed

lemma invs_fold:
  "poller_inv st \<Longrightarrow> interval_owned st \<Longrightarrow>
     poller_inv (fold (step rt) es st) \<and> interval_owned (fold (step rt) es st)"
proof (induction es arbitrary: st)
  case Nil
  then show ?case by simp
next
  case (Cons e es)
  have "poller_inv (step rt e st)" by (rule inv_step [OF Cons.prems(1)])
  moreover have "interval_owned (step rt e st)" by (rule owned_step [OF Cons.prems])
  ultimately show ?case using Cons.IH by simp
qed

lemma owned_run: "interval_owned (run rt es initial_state)"
proof -
  have "poller_inv initial_state" "interval_owned initial_state"
    by (simp_all add: poller_inv_cases interval_owned_def initial_state_def)
  from invs_fold [OF this] show ?thesis by (simp add: run_def)
qed

lemma stop_polling_idle:
  assumes "poller_inv st" and "interval_owned st"
  shows "timers (stop_polling rt st) = [] \<and> requests (stop_polling rt st) = requests st"
proof -
  let ?s = "st\<lparr> taskId := JNull \<rparr>"
  have inv: "poller_inv ?s" using assms(1) by (simp add: poller_inv_cases)
  have own: "interval_owned ?s" by (rule owned_same [OF assms(2)]) simp_all
  have sp: "stop_polling rt st = commit ?s" by (simp add: stop_polling_def)
  show ?thesis
  proof (cases "mounted ?s \<and> taskId ?s \<noteq> effect_taskId ?s")
    case True
    let ?c = "polling_effect_cleanup ?s"
    have c: "commit ?s = polling_effect ?c" using True by (simp add: commit_def)
    have f: "\<not> truthy (taskId ?c)" by (simp add: cleanup_fields)
    from polling_effect_idle [OF f] cleanup_timers [OF inv own]
    show ?thesis unfolding sp c by (simp add: cleanup_fields)
  next
    case False
    then have c: "commit ?s = ?s" by (auto simp: commit_def)
    from False have "\<not> mounted st \<or> \<not> truthy (effect_taskId st)" by auto
    with assms(2) have "timers st = []" by (auto simp: interval_owned_def)
    then show ?thesis unfolding sp c by simp
  qed
qed

text \<open>
  C2. In every state the container can reach, under any interleaving of uploads,
  answers, commits, ticks and unmounting, at most one interval is live, and it is
  the one \<^verbatim>\<open>pollingIntervalRef\<close> holds. Starting an upload and unmounting leave no
  live interval, and the polling effect cancels the live interval before it
  issues a status check or creates an interval. Stopping, which clears the task
  id so that the commit calls the cleanup of the polling effect, leaves no live
  interval either, issues no status check, and no later timer period issues
  one. When a commit starts a job, also while another job is being polled,
  exactly one interval is live afterwards, and each following timer period
  within the ceiling issues exactly one status check, for the new job.
\<close>

theorem single_polling_loop:
  assumes "st = run rt es initial_state"
  shows "length (timers st) \<le> 1 \<and>
         set (map fst (timers st)) \<subseteq> set_option (pollingIntervalRef st) \<and>
         timers (handleFileSelect_begin f st) = [] \<and>
         timers (unmount st) = [] \<and>
         timers (clear_existing st) = [] \<and>
         timers (polling_effect_cleanup st) = [] \<and>
         timers (stop_polling rt st) = [] \<and>
         requests (stop_polling rt st) = requests st \<and>
         requests (fold tick_after ts (stop_polling rt st)) = requests st \<and>
         (mounted st \<and> truthy (taskId st) \<and> taskId st \<noteq> effect_taskId st \<and>
          int (sum_list ds) \<le> MAX_POLLING_TIME \<longrightarrow>
            timers (commit st) = [(next_handle st, taskId st)] \<and>
            requests (commit st) = requests st @ [taskId st] \<and>
            requests (fold tick_after ds (commit st))
              = requests (commit st) @ replicate (length ds) (taskId st))"
proof -
  have inv: "poller_inv st" unfolding assms by (rule inv_run)
  have a: "length (timers st) \<le> 1"
    and b: "set (map fst (timers st)) \<subseteq> set_option (pollingIntervalRef st)"
    using inv by (auto simp: poller_inv_cases)
  have c: "timers (handleFileSelect_begin f st) = []"
    by (rule inv_handleFileSelect_begin [OF inv])
  have d: "timers (unmount st) = []" by (rule timers_unmount [OF inv])
  have e: "timers (clear_existing st) = []" by (rule timers_clear_existing [OF inv])
  have own: "interval_owned st" unfolding assms by (rule owned_run)
  have k: "timers (polling_effect_cleanup st) = []" by (rule cleanup_timers [OF inv own])
  note sp = stop_polling_idle [OF inv own, of rt]
  have sq: "requests (fold tick_after ts (stop_polling rt st)) = requests st"
    using ticks_idle [of "stop_polling rt st" ts] sp by simp
  have g: "timers (commit st) = [(next_handle st, taskId st)] \<and>
           requests (commit st) = requests st @ [taskId st] \<and>
           requests (fold tick_after ds (commit st))
             = requests (commit st) @ replicate (length ds) (taskId st)"
    if h: "mounted st" "truthy (taskId st)" "taskId st \<noteq> effect_taskId st"
      "int (sum_list ds) \<le> MAX_POLLING_TIME"
  proof -
    note cs = commit_start [OF inv h(1,2,3)]
    have "now (commit st) + int (sum_list ds) - now st \<le> MAX_POLLING_TIME"
      using cs(5) h(4) by simp
    from ticks_polling [OF cs(1,2,4) this] cs(1,3) show ?thesis by simp
  qed
  from a b c d e k sp sq g show ?thesis by blast
qed

theorem single_polling_loop_witness:
  "second_start_state
     = run sample_runtime
         [HandleFileSelect ''first.csv'', HandleFileSelect ''second.csv'', Commit,
          PipelineSettled (Fulfilled (JObj [(''task_id'', JStr ''task-1'')])), Commit,
          Advance 5000, Tick 1,
          PipelineSettled (Fulfilled (JObj [(''task_id'', JStr ''task-2'')]))]
         initial_state \<and>
   timers second_start_state = [(1, JStr ''task-1'')] \<and>
   mounted second_start_state \<and> truthy (taskId second_start_state) \<and>
   taskId second_start_state \<noteq> effect_taskId second_start_state \<and>
   int (sum_list [5000, 5000, 5000]) \<le> MAX_POLLING_TIME \<and>
   timers (stop_polling sample_runtime second_start_state) = [] \<and>
   timers (commit second_start_state) = [(2, JStr ''task-2'')] \<and>
   requests (fold tick_after [5000, 5000, 5000] (commit second_start_state))
     = requests (commit second_start_state) @ [JStr ''task-2'', JStr ''task-2'', JStr ''task-2'']"
proof -
  have h: "second_start_state
     = run sample_runtime
         [HandleFileSelect ''first.csv'', HandleFileSelect ''second.csv'', Commit,
          PipelineSettled (Fulfilled (JObj [(''task_id'', JStr ''task-1'')])), Commit,
          Advance 5000, Tick 1,
          PipelineSettled (Fulfilled (JObj [(''task_id'', JStr ''task-2'')]))]
         initial_state"
    by (simp only: second_start_state_def)
  note v = second_start_state_fields
  have m: "int (sum_list [5000, 5000, 5000]) \<le> MAX_POLLING_TIME"
    by (simp add: MAX_POLLING_TIME_def)
  have t: "truthy (taskId second_start_state)"
    and n: "taskId second_start_state \<noteq> effect_taskId second_start_state"
    by (simp_all add: v)
  note inst = single_polling_loop [OF h, where f = "''x''" and ts = "[]"
      and ds = "[5000, 5000, 5000]"]
  have s: "timers (stop_polling sample_runtime second_start_state) = []"
    using inst by blast
  from inst v(5) t n m
  have "timers (commit second_start_state)
          = [(next_handle second_start_state, taskId second_start_state)]"
    and "requests (fold tick_after [5000, 5000, 5000] (commit second_start_state))
          = requests (commit second_start_state)
            @ replicate (length [5000, 5000, 5000 :: nat]) (taskId second_start_state)"
    by blast+
  then have "timers (commit second_start_state) = [(2, JStr ''task-2'')]"
    and "requests (fold tick_after [5000, 5000, 5000] (commit second_start_state))
          = requests (commit second_start_state) @ [JStr ''task-2'', JStr ''task-2'', JStr ''task-2'']"
    by (simp_all add: v)
  with h v(1,5) t n m s show ?thesis by blast
qed

text \<open>
  C3, as stated, fails at the ceiling itself: a tick exactly 30 minutes after the
  start does not time out, it issues one more status check.
\<close>

theorem timeout_at_ceiling_counterexample:
  "pollingStartTimeRef (polling_state_at 1800000) = Some 0 \<and>
   now (polling_state_at 1800000) - 0 = MAX_POLLING_TIME \<and>
   timers (polling_state_at 1800000) = [(1, JStr ''task-1'')] \<and>
   requests (polling_state_at 1800000) = [JStr ''task-1''] \<and>
   requests (interval_tick 1 (polling_state_at 1800000)) = [JStr ''task-1'', JStr ''task-1''] \<and>
   timers (interval_tick 1 (polling_state_at 1800000)) = [(1, JStr ''task-1'')] \<and>
   taskId (interval_tick 1 (polling_state_at 1800000)) = JStr ''task-1'' \<and>
   error (interval_tick 1 (polling_state_at 1800000)) = JNull"
  by (simp add: polling_state_at_fields interval_tick_def MAX_POLLING_TIME_def
        pollTaskStatus_call_def)

text \<open>
  C3, amended. The elapsed time is checked at the top of every tick of the live
  interval. A tick at which more than 30 minutes have elapsed since the start
  cancels the interval, sets the timeout message as the error and clears the
  task, without a status check, and no later timer period issues one; a tick at
  which at most 30 minutes have elapsed issues one status check and changes
  nothing else.
\<close>

theorem timeout_after_ceiling:
  assumes "timers st = [(h, tid)]" and "pollingIntervalRef st = Some h"
    and "pollingStartTimeRef st = Some t0"
  shows "interval_tick h st =
           (if MAX_POLLING_TIME < now st - t0 then timed_out st
            else pollTaskStatus_call tid st) \<and>
         timers (timed_out st) = [] \<and>
         requests (timed_out st) = requests st \<and>
         requests (fold tick_after ds (timed_out st)) = requests st"
proof -
  have t: "timers (timed_out st) = []" "requests (timed_out st) = requests st"
    by (simp_all add: timed_out_def)
  from ticks_idle [OF t(1), of ds] t interval_tick_polling [OF assms]
  show ?thesis by simp
qed

theorem timeout_after_ceiling_witness:
  "timers (polling_state_at 1800001) = [(1, JStr ''task-1'')] \<and>
   pollingIntervalRef (polling_state_at 1800001) = Some 1 \<and>
   pollingStartTimeRef (polling_state_at 1800001) = Some 0 \<and>
   MAX_POLLING_TIME < now (polling_state_at 1800001) - 0 \<and>
   interval_tick 1 (polling_state_at 1800001) = timed_out (polling_state_at 1800001) \<and>
   requests (fold tick_after [5000, 5000] (timed_out (polling_state_at 1800001)))
     = requests (polling_state_at 1800001)"
proof -
  note f = polling_state_at_fields [of 1800001]
  have d: "MAX_POLLING_TIME < now (polling_state_at 1800001) - 0"
    by (simp add: f MAX_POLLING_TIME_def)
  from timeout_after_ceiling [OF f(1,2,3), of "[5000, 5000]"] f(1,2,3) d
  show ?thesis by simp
qed

text \<open>
  C6, as stated, fails for the sort key: \<^verbatim>\<open>handleFileSelect\<close> does not reset it.
\<close>

theorem sort_key_kept_counterexample:
  "sortType initial_state = ''probability-desc'' \<and>
   sortType (handleFileSelect_begin ''new.csv'' (initial_state\<lparr> sortType := ''id-asc'' \<rparr>))
     = ''id-asc''"
  by (simp add: handleFileSelect_begin_def clear_polling_def initial_state_def)

text \<open>
  C6, amended. Before it submits the file, \<^verbatim>\<open>handleFileSelect\<close> clears the error,
  the tier filter, the search text, the three category filters and the expanded
  id, whatever the state was; it leaves the sort key as it is. No status check
  is issued and no task is polled before the submission returns.
\<close>

theorem handleFileSelect_clean_slate:
  "error (handleFileSelect_begin f st) = JNull \<and>
   activeFilter (handleFileSelect_begin f st) = ''all'' \<and>
   searchQuery (handleFileSelect_begin f st) = [] \<and>
   planTypeFilter (handleFileSelect_begin f st) = [] \<and>
   contractTypeFilter (handleFileSelect_begin f st) = [] \<and>
   regionFilter (handleFileSelect_begin f st) = [] \<and>
   expandedCardId (handleFileSelect_begin f st) = JNull \<and>
   sortType (handleFileSelect_begin f st) = sortType st \<and>
   taskId (handleFileSelect_begin f st) = JNull \<and>
   requests (handleFileSelect_begin f st) = requests st"
  by (cases "pollingIntervalRef st")
     (simp_all add: handleFileSelect_begin_def clear_polling_def clearInterval_def)

section \<open>Properties of the Virtualized Grid Renderer\<close>

lemma getItemSize_iff:
  "getItemSize cs e cols r = EXPANDED_ROW_HEIGHT \<longleftrightarrow>
     (\<exists>i. r * cols \<le> i \<and> i < r * cols + cols \<and> i < length cs \<and>
          strict_eq (customer_id (cs ! i)) e)"
  by (auto simp: getItemSize_def Let_def list_ex_iff BASE_ROW_HEIGHT_def EXPANDED_ROW_HEIGHT_def)

lemma getItemSize_cases:
  "getItemSize cs e cols r = EXPANDED_ROW_HEIGHT \<or> getItemSize cs e cols r = BASE_ROW_HEIGHT"
  by (simp add: getItemSize_def Let_def)

text \<open>
  C7. For every view, expanded id, column count and row, the height of the row is
  the expanded height if and only if one of the entities at the indices
  \<open>r * cols\<close> up to \<open>r * cols + cols - 1\<close>, within the view, has the expanded id, and
  it is the base height otherwise. In a view of nine entities in four columns,
  expanding the entity at index 6 makes row 1 tall and leaves rows 0 and 2 at
  the base height; toggling it again collapses it and row 1 is back at the base
  height.
\<close>

theorem row_height:
  "(getItemSize cs e cols r = EXPANDED_ROW_HEIGHT \<longleftrightarrow>
      (\<exists>i. r * cols \<le> i \<and> i < r * cols + cols \<and> i < length cs \<and>
           strict_eq (customer_id (cs ! i)) e)) \<and>
   (getItemSize cs e cols r = BASE_ROW_HEIGHT \<longleftrightarrow>
      \<not> (\<exists>i. r * cols \<le> i \<and> i < r * cols + cols \<and> i < length cs \<and>
           strict_eq (customer_id (cs ! i)) e)) \<and>
   length nine_entities = 9 \<and>
   getItemSize nine_entities (customer_id (nine_entities ! 6)) 4 0 = BASE_ROW_HEIGHT \<and>
   getItemSize nine_entities (customer_id (nine_entities ! 6)) 4 1 = EXPANDED_ROW_HEIGHT \<and>
   getItemSize nine_entities (customer_id (nine_entities ! 6)) 4 2 = BASE_ROW_HEIGHT \<and>
   expandedCardId (handleCardToggle (customer_id (nine_entities ! 6))
                     (initial_state\<lparr> expandedCardId := customer_id (nine_entities ! 6) \<rparr>)) = JNull \<and>
   getItemSize nine_entities JNull 4 0 = BASE_ROW_HEIGHT \<and>
   getItemSize nine_entities JNull 4 1 = BASE_ROW_HEIGHT \<and>
   getItemSize nine_entities JNull 4 2 = BASE_ROW_HEIGHT"
proof -
  have ne: "EXPANDED_ROW_HEIGHT \<noteq> BASE_ROW_HEIGHT"
    by (simp add: BASE_ROW_HEIGHT_def EXPANDED_ROW_HEIGHT_def)
  have a: "getItemSize cs e cols r = BASE_ROW_HEIGHT \<longleftrightarrow>
      \<not> (\<exists>i. r * cols \<le> i \<and> i < r * cols + cols \<and> i < length cs \<and>
           strict_eq (customer_id (cs ! i)) e)"
    using getItemSize_iff [of cs e cols r] getItemSize_cases [of cs e cols r] ne by auto
  have ex: "length nine_entities = 9"
    "getItemSize nine_entities (customer_id (nine_entities ! 6)) 4 0 = BASE_ROW_HEIGHT"
    "getItemSize nine_entities (customer_id (nine_entities ! 6)) 4 1 = EXPANDED_ROW_HEIGHT"
    "getItemSize nine_entities (customer_id (nine_entities ! 6)) 4 2 = BASE_ROW_HEIGHT"
    "getItemSize nine_entities JNull 4 0 = BASE_ROW_HEIGHT"
    "getItemSize nine_entities JNull 4 1 = BASE_ROW_HEIGHT"
    "getItemSize nine_entities JNull 4 2 = BASE_ROW_HEIGHT"
    by (simp_all add: getItemSize_def Let_def nine_entities_def sample_customer_def strict_eq_def
          upt_rec [of _ "numeral n" for n])
  have tg: "expandedCardId (handleCardToggle (customer_id (nine_entities ! 6))
                     (initial_state\<lparr> expandedCardId := customer_id (nine_entities ! 6) \<rparr>)) = JNull"
    by (simp add: handleCardToggle_def strict_eq_def)
  from getItemSize_iff [of cs e cols r] a ex tg show ?thesis by blast
qed

section \<open>Properties of the View Pipeline\<close>

lemma filterE_total:
  "\<forall>c \<in> set cs. \<exists>b. p c = Inr b \<Longrightarrow>
     filterE p cs = Inr (filter (\<lambda>c. case p c of Inl e \<Rightarrow> False | Inr b \<Rightarrow> b) cs)"
  by (induction cs) auto

lemma matches_ci_total:
  "string_or_falsy v \<Longrightarrow> \<exists>b. matches_ci v f = Inr b"
  by (cases v) (auto simp: matches_ci_def string_or_falsy_def)

lemma stage_pred_total:
  assumes "customer_well_typed c"
  shows "\<exists>b. stage_pred st s c = Inr b"
proof (cases s)
  case TierStage
  then show ?thesis by (simp add: tier_pred_def)
next
  case PlanTypeStage
  then show ?thesis using assms
    by (simp add: planType_pred_def customer_well_typed_def matches_ci_total)
next
  case ContractTypeStage
  then show ?thesis using assms
    by (simp add: contractType_pred_def customer_well_typed_def matches_ci_total)
next
  case RegionStage
  then show ?thesis using assms
    by (simp add: region_pred_def customer_well_typed_def matches_ci_total)
next
  case SearchStage
  then show ?thesis using assms
    by (cases "customer_id c") (auto simp: search_pred_def customer_well_typed_def)
qed

lemma run_stage_total:
  assumes "view_well_typed cs"
  shows "run_stage st s cs = Inr (filter (passes st s) cs)"
proof (cases "stage_active st s")
  case True
  have "\<forall>c \<in> set cs. \<exists>b. stage_pred st s c = Inr b"
    using assms stage_pred_total by (auto simp: view_well_typed_def list_all_iff)
  moreover have "passes st s = (\<lambda>c. case stage_pred st s c of Inl e \<Rightarrow> False | Inr b \<Rightarrow> b)"
    using True by (simp add: fun_eq_iff passes_def)
  ultimately show ?thesis using True filterE_total [of cs "stage_pred st s"]
    by (simp add: run_stage_def)
next
  case False
  then have "passes st s = (\<lambda>c. True)" by (simp add: fun_eq_iff passes_def)
  then show ?thesis using False by (simp add: run_stage_def)
qed

lemma view_well_typed_filter:
  "view_well_typed cs \<Longrightarrow> view_well_typed (filter P cs)"
  by (simp add: view_well_typed_def list_all_iff)

lemma run_stages_total:
  "view_well_typed cs \<Longrightarrow>
     run_stages st ss cs = Inr (filter (\<lambda>c. \<forall>s \<in> set ss. passes st s c) cs)"
proof (induction ss arbitrary: cs)
  case Nil
  then show ?case by simp
next
  case (Cons s ss)
  have wt: "view_well_typed (filter (passes st s) cs)"
    by (rule view_well_typed_filter [OF Cons.prems])
  have "run_stages st (s # ss) cs = run_stages st ss (filter (passes st s) cs)"
    by (simp add: run_stage_total [OF Cons.prems] bindE_def)
  also have "\<dots> = Inr (filter (\<lambda>c. \<forall>s \<in> set ss. passes st s c) (filter (passes st s) cs))"
    by (rule Cons.IH [OF wt])
  also have "filter (\<lambda>c. \<forall>s \<in> set ss. passes st s c) (filter (passes st s) cs)
             = filter (\<lambda>c. \<forall>s' \<in> set (s # ss). passes st s' c) cs"
    by (auto intro: filter_cong)
  finally show ?case .
qed

lemma apply_filters_run_stages:
  "apply_filters st cs = run_stages st all_stages cs"
  by (simp add: apply_filters_def all_stages_def bindE_def split: sum.splits)

lemma selected_alt: "selected st = (\<lambda>c. \<forall>s \<in> set all_stages. passes st s c)"
  by (simp add: fun_eq_iff selected_def list_all_iff)

lemma apply_filters_total:
  assumes "view_well_typed cs"
  shows "apply_filters st cs = Inr (filter (selected st) cs)"
  unfolding apply_filters_run_stages run_stages_total [OF assms]
  by (simp add: selected_alt)

lemmas eval_view =
  computeView_def apply_filters_def run_stage_def bindE_def sort_stage_def
  initial_state_def cmp_id_asc_def sample_customer_def first_digit_run_def is_digit_def
  parseInt_digits_def digit_value_def tier_pred_def search_pred_def toLowerCase_def
  lower_char_def calculateRiskLevel_def cmp_probability_desc_def cmp_probability_asc_def
  view_well_typed_def customer_well_typed_def string_or_falsy_def planType_of_def
  contractType_of_def region_of_def js_or_def opt_prop_def get_prop_def round64_small

lemma four_well_typed: "view_well_typed four_entities"
  by (simp add: four_entities_def eval_view)

lemma critical_selected:
  "filter (selected critical_state) four_entities
     = [sample_customer ''entity-1'' 95, sample_customer ''entity-4'' 91]"
  by (simp add: selected_def all_stages_def passes_def critical_state_def four_entities_def
        eval_view)

lemma filterE_Inr:
  "filterE p cs = Inr ys \<Longrightarrow>
     ys = filter (\<lambda>c. case p c of Inl e \<Rightarrow> False | Inr b \<Rightarrow> b) cs"
  by (induction cs arbitrary: ys) (auto split: sum.splits)

lemma run_stage_Inr:
  assumes "run_stage st s cs = Inr ys"
  shows "ys = filter (passes st s) cs"
proof (cases "stage_active st s")
  case True
  then have "passes st s = (\<lambda>c. case stage_pred st s c of Inl e \<Rightarrow> False | Inr b \<Rightarrow> b)"
    by (simp add: fun_eq_iff passes_def)
  with assms True filterE_Inr [of "stage_pred st s" cs ys] show ?thesis
    by (simp add: run_stage_def)
next
  case False
  then have "passes st s = (\<lambda>c. True)" by (simp add: fun_eq_iff passes_def)
  with assms False show ?thesis by (simp add: run_stage_def)
qed

lemma run_stages_Inr:
  "run_stages st ss cs = Inr v \<Longrightarrow> v = filter (\<lambda>c. \<forall>s \<in> set ss. passes st s c) cs"
proof (induction ss arbitrary: cs)
  case Nil
  then show ?case by simp
next
  case (Cons s ss)
  from Cons.prems obtain ys where ys: "run_stage st s cs = Inr ys"
    and rest: "run_stages st ss ys = Inr v"
    by (auto simp: bindE_def split: sum.splits)
  have "v = filter (\<lambda>c. \<forall>s \<in> set ss. passes st s c) (filter (passes st s) cs)"
    using Cons.IH [OF rest] run_stage_Inr [OF ys] by simp
  also have "\<dots> = filter (\<lambda>c. \<forall>s' \<in> set (s # ss). passes st s' c) cs"
    by (auto intro: filter_cong)
  finally show ?case .
qed

text \<open>
  C10. Every filter stage that returns is the filter of a predicate on single
  entities. Running the five stages in any order gives, whenever it returns, the
  list of the entities that pass every stage, and the set of these is the
  intersection of the sets of entities that pass the single stages. On a
  well-typed entity list every order does return, as does each stage alone, and
  the source's order is one of them.
\<close>

theorem filter_stages_commute:
  assumes "mset ss = mset all_stages"
  shows "(run_stages st ss cs = Inr v \<longrightarrow> v = filter (selected st) cs) \<and>
         set (filter (selected st) cs)
           = (\<Inter>s \<in> set all_stages. {c \<in> set cs. passes st s c}) \<and>
         (view_well_typed cs \<longrightarrow>
            run_stages st ss cs = Inr (filter (selected st) cs) \<and>
            apply_filters st cs = Inr (filter (selected st) cs) \<and>
            (\<forall>s \<in> set all_stages. run_stage st s cs = Inr (filter (passes st s) cs)))"
proof -
  have eq: "set ss = set all_stages" using assms by (metis set_mset_mset)
  have a: "v = filter (selected st) cs" if "run_stages st ss cs = Inr v"
    using run_stages_Inr [OF that] unfolding eq by (simp add: selected_alt)
  have b: "set (filter (selected st) cs)
           = (\<Inter>s \<in> set all_stages. {c \<in> set cs. passes st s c})"
    by (auto simp: selected_alt all_stages_def)
  have c: "run_stages st ss cs = Inr (filter (selected st) cs) \<and>
            apply_filters st cs = Inr (filter (selected st) cs) \<and>
            (\<forall>s \<in> set all_stages. run_stage st s cs = Inr (filter (passes st s) cs))"
    if wt: "view_well_typed cs"
  proof -
    have "run_stages st ss cs = Inr (filter (selected st) cs)"
      unfolding run_stages_total [OF wt] eq by (simp add: selected_alt)
    with apply_filters_total [OF wt] run_stage_total [OF wt] show ?thesis by simp
  qed
  from a b c show ?thesis by blast
qed

theorem filter_stages_commute_witness:
  "mset [SearchStage, RegionStage, ContractTypeStage, PlanTypeStage, TierStage] = mset all_stages \<and>
   view_well_typed four_entities \<and>
   run_stages critical_state
       [SearchStage, RegionStage, ContractTypeStage, PlanTypeStage, TierStage] four_entities
     = Inr [sample_customer ''entity-1'' 95, sample_customer ''entity-4'' 91] \<and>
   apply_filters critical_state four_entities
     = Inr [sample_customer ''entity-1'' 95, sample_customer ''entity-4'' 91]"
proof -
  have p: "mset [SearchStage, RegionStage, ContractTypeStage, PlanTypeStage, TierStage]
             = mset all_stages"
    by (simp add: all_stages_def)
  note t = filter_stages_commute [OF p, of critical_state four_entities]
  note w = t [THEN conjunct2, THEN conjunct2, rule_format, OF four_well_typed]
  have a: "run_stages critical_state
       [SearchStage, RegionStage, ContractTypeStage, PlanTypeStage, TierStage] four_entities
     = Inr [sample_customer ''entity-1'' 95, sample_customer ''entity-4'' 91]"
    using w [THEN conjunct1] by (simp only: critical_selected)
  have b: "apply_filters critical_state four_entities
     = Inr [sample_customer ''entity-1'' 95, sample_customer ''entity-4'' 91]"
    using w [THEN conjunct2, THEN conjunct1] by (simp only: critical_selected)
  from p four_well_typed a b show ?thesis by (intro conjI)
qed

lemma insertE_mset:
  assumes "\<And>y. y \<in> set ys \<Longrightarrow> \<exists>r. cmp x y = Inr r"
  shows "\<exists>zs. insertE cmp x ys = Inr zs \<and> mset zs = mset (x # ys)"
  using assms
proof (induction ys)
  case Nil
  show ?case by simp
next
  case (Cons y ys)
  from Cons.prems [of y] obtain r where r: "cmp x y = Inr r" by auto
  have "\<exists>zs. insertE cmp x ys = Inr zs \<and> mset zs = mset (x # ys)"
  proof (rule Cons.IH)
    fix z assume "z \<in> set ys"
    then show "\<exists>r. cmp x z = Inr r" using Cons.prems [of z] by simp
  qed
  then obtain zs where zs: "insertE cmp x ys = Inr zs" "mset zs = mset (x # ys)" by blast
  show ?case
  proof (cases "r \<le> 0")
    case True
    then show ?thesis using r by simp
  next
    case False
    then show ?thesis using r zs by simp
  qed
qed

lemma sortE_mset:
  assumes "\<And>a b. a \<in> set xs \<Longrightarrow> b \<in> set xs \<Longrightarrow> \<exists>r. cmp a b = Inr r"
  shows "\<exists>ys. sortE cmp xs = Inr ys \<and> mset ys = mset xs"
  using assms
proof (induction xs)
  case Nil
  show ?case by simp
next
  case (Cons x xs)
  have "\<exists>ys. sortE cmp xs = Inr ys \<and> mset ys = mset xs"
  proof (rule Cons.IH)
    fix a b assume "a \<in> set xs" "b \<in> set xs"
    then show "\<exists>r. cmp a b = Inr r" using Cons.prems [of a b] by simp
  qed
  then obtain ys where ys: "sortE cmp xs = Inr ys" "mset ys = mset xs" by blast
  have s: "set ys = set xs" using ys(2) by (metis set_mset_mset)
  have "\<exists>zs. insertE cmp x ys = Inr zs \<and> mset zs = mset (x # ys)"
  proof (rule insertE_mset)
    fix y assume "y \<in> set ys"
    then show "\<exists>r. cmp x y = Inr r" using Cons.prems [of x y] s by simp
  qed
  then obtain zs where zs: "insertE cmp x ys = Inr zs" "mset zs = mset (x # ys)" by blast
  show ?case using ys zs by (simp add: bindE_def)
qed

lemma insertE_sorted:
  assumes c: "\<And>y. y \<in> set ys \<Longrightarrow> cmp x y = Inr (f x y)"
    and tot: "\<And>y. y \<in> set ys \<Longrightarrow> f x y \<le> 0 \<or> f y x \<le> 0"
    and tr: "\<And>y z. y \<in> set ys \<Longrightarrow> z \<in> set ys \<Longrightarrow> f x y \<le> 0 \<Longrightarrow> f y z \<le> 0 \<Longrightarrow> f x z \<le> 0"
    and srt: "sorted_wrt (\<lambda>a b. f a b \<le> 0) ys"
    and zs: "insertE cmp x ys = Inr zs"
  shows "sorted_wrt (\<lambda>a b. f a b \<le> 0) zs"
  using assms
proof (induction ys arbitrary: zs)
  case Nil
  then show ?case by auto
next
  case (Cons y ys)
  have cy: "cmp x y = Inr (f x y)" by (rule Cons.prems(1)) simp
  show ?case
  proof (cases "f x y \<le> 0")
    case True
    have "zs = x # y # ys" using Cons.prems(5) cy True by simp
    moreover have "\<forall>z \<in> set ys. f x z \<le> 0"
    proof
      fix z assume z: "z \<in> set ys"
      have "f y z \<le> 0" using Cons.prems(4) z by simp
      with Cons.prems(3) [of y z] z True show "f x z \<le> 0" by simp
    qed
    ultimately show ?thesis using True Cons.prems(4) by simp
  next
    case False
    then have yx: "f y x \<le> 0" using Cons.prems(2) [of y] by simp
    from Cons.prems(5) cy False obtain zs' where zs': "insertE cmp x ys = Inr zs'" "zs = y # zs'"
      by (auto split: sum.splits)
    have ih: "sorted_wrt (\<lambda>a b. f a b \<le> 0) zs'"
    proof (rule Cons.IH [OF _ _ _ _ zs'(1)])
      fix z assume "z \<in> set ys"
      then show "cmp x z = Inr (f x z)" using Cons.prems(1) [of z] by simp
    next
      fix z assume "z \<in> set ys"
      then show "f x z \<le> 0 \<or> f z x \<le> 0" using Cons.prems(2) [of z] by simp
    next
      fix z w assume "z \<in> set ys" "w \<in> set ys" "f x z \<le> 0" "f z w \<le> 0"
      then show "f x w \<le> 0" using Cons.prems(3) [of z w] by simp
    next
      show "sorted_wrt (\<lambda>a b. f a b \<le> 0) ys" using Cons.prems(4) by simp
    qed
    have "\<exists>zs. insertE cmp x ys = Inr zs \<and> mset zs = mset (x # ys)"
      by (rule insertE_mset) (use Cons.prems(1) in auto)
    with zs'(1) have "mset zs' = mset (x # ys)" by simp
    then have "set zs' = insert x (set ys)" by (metis list.simps(15) set_mset_mset)
    then have "\<forall>z \<in> set zs'. f y z \<le> 0" using yx Cons.prems(4) by simp
    then show ?thesis using zs'(2) ih by simp
  qed
qed

lemma sortE_sorted:
  assumes c: "\<And>a b. a \<in> set xs \<Longrightarrow> b \<in> set xs \<Longrightarrow> cmp a b = Inr (f a b)"
    and tot: "\<And>a b. a \<in> set xs \<Longrightarrow> b \<in> set xs \<Longrightarrow> f a b \<le> 0 \<or> f b a \<le> 0"
    and tr: "\<And>a b c. a \<in> set xs \<Longrightarrow> b \<in> set xs \<Longrightarrow> c \<in> set xs \<Longrightarrow>
               f a b \<le> 0 \<Longrightarrow> f b c \<le> 0 \<Longrightarrow> f a c \<le> 0"
    and ys: "sortE cmp xs = Inr ys"
  shows "sorted_wrt (\<lambda>a b. f a b \<le> 0) ys"
  using assms
proof (induction xs arbitrary: ys)
  case Nil
  from Nil.prems(4) show ?case by simp
next
  case (Cons x xs)
  from Cons.prems(4) obtain ys' where ys': "sortE cmp xs = Inr ys'" "insertE cmp x ys' = Inr ys"
    by (auto simp: bindE_def split: sum.splits)
  have ih: "sorted_wrt (\<lambda>a b. f a b \<le> 0) ys'"
  proof (rule Cons.IH [OF _ _ _ ys'(1)])
    fix a b assume "a \<in> set xs" "b \<in> set xs"
    then show "cmp a b = Inr (f a b)" using Cons.prems(1) [of a b] by simp
  next
    fix a b assume "a \<in> set xs" "b \<in> set xs"
    then show "f a b \<le> 0 \<or> f b a \<le> 0" using Cons.prems(2) [of a b] by simp
  next
    fix a b c assume "a \<in> set xs" "b \<in> set xs" "c \<in> set xs" "f a b \<le> 0" "f b c \<le> 0"
    then show "f a c \<le> 0" using Cons.prems(3) [of a b c] by simp
  qed
  have "\<exists>zs. sortE cmp xs = Inr zs \<and> mset zs = mset xs"
    by (rule sortE_mset) (use Cons.prems(1) in auto)
  with ys'(1) have "mset ys' = mset xs" by simp
  then have s: "set ys' = set xs" by (metis set_mset_mset)
  show ?case
  proof (rule insertE_sorted [OF _ _ _ ih ys'(2)])
    fix y assume "y \<in> set ys'"
    then show "cmp x y = Inr (f x y)" using Cons.prems(1) [of x y] s by simp
  next
    fix y assume "y \<in> set ys'"
    then show "f x y \<le> 0 \<or> f y x \<le> 0" using Cons.prems(2) [of x y] s by simp
  next
    fix y z assume "y \<in> set ys'" "z \<in> set ys'" "f x y \<le> 0" "f y z \<le> 0"
    then show "f x z \<le> 0" using Cons.prems(3) [of x y z] s by simp
  qed
qed

lemma cmp_id_asc_string:
  assumes "is_string (customer_id a)" and "is_string (customer_id b)"
  shows "cmp_id_asc rt a b = Inr (id_cmp rt a b)"
  using assms
  by (cases "customer_id a"; cases "customer_id b")
     (simp_all add: cmp_id_asc_def id_cmp_def id_key_def id_text_def bindE_def)

lemma id_cmp_le: "id_cmp rt a b \<le> 0 \<longleftrightarrow> id_asc_le rt a b"
  by (auto simp: id_cmp_def id_asc_le_def)

lemma consistent_total:
  assumes "consistent_compare rt ss" and "a \<in> set ss" and "b \<in> set ss"
  shows "localeCompare rt a b \<le> 0 \<or> localeCompare rt b a \<le> 0"
  using assms unfolding consistent_compare_def list_all_iff by blast

lemma consistent_trans:
  assumes "consistent_compare rt ss" and "a \<in> set ss" and "b \<in> set ss" and "c \<in> set ss"
    and "localeCompare rt a b \<le> 0" and "localeCompare rt b c \<le> 0"
  shows "localeCompare rt a c \<le> 0"
proof -
  from assms(1) have "\<forall>a \<in> set ss. \<forall>b \<in> set ss. \<forall>c \<in> set ss.
      (if localeCompare rt a b \<le> 0 \<and> localeCompare rt b c \<le> 0
       then localeCompare rt a c \<le> 0 else True)"
    unfolding consistent_compare_def list_all_iff by blast
  with assms(2,3,4) have "if localeCompare rt a b \<le> 0 \<and> localeCompare rt b c \<le> 0
       then localeCompare rt a c \<le> 0 else True" by blast
  with assms(5,6) show ?thesis by simp
qed

lemma id_asc_total:
  assumes "consistent_compare rt (map id_text cs)" and "a \<in> set cs" and "b \<in> set cs"
  shows "id_cmp rt a b \<le> 0 \<or> id_cmp rt b a \<le> 0"
proof -
  have "localeCompare rt (id_text a) (id_text b) \<le> 0 \<or>
        localeCompare rt (id_text b) (id_text a) \<le> 0"
    by (rule consistent_total [OF assms(1)]) (use assms(2,3) in simp_all)
  then show ?thesis unfolding id_cmp_le id_asc_le_def by linarith
qed

lemma id_asc_trans:
  assumes "consistent_compare rt (map id_text cs)"
    and "a \<in> set cs" and "b \<in> set cs" and "c \<in> set cs"
    and ab: "id_cmp rt a b \<le> 0" and bc: "id_cmp rt b c \<le> 0"
  shows "id_cmp rt a c \<le> 0"
proof -
  have tr: "localeCompare rt (id_text a) (id_text b) \<le> 0 \<Longrightarrow>
            localeCompare rt (id_text b) (id_text c) \<le> 0 \<Longrightarrow>
            localeCompare rt (id_text a) (id_text c) \<le> 0"
    by (rule consistent_trans [OF assms(1)]) (use assms(2,3,4) in simp_all)
  from ab bc have "id_asc_le rt a b" "id_asc_le rt b c" by (simp_all add: id_cmp_le)
  then have "id_asc_le rt a c"
    unfolding id_asc_le_def using tr by (metis less_trans)
  then show ?thesis by (simp add: id_cmp_le)
qed

lemma passes_sortType [simp]: "passes (st\<lparr> sortType := k \<rparr>) s c = passes st s c"
  by (cases s) (simp_all add: passes_def)

lemma selected_sortType [simp]: "selected (st\<lparr> sortType := k \<rparr>) = selected st"
  by (simp add: fun_eq_iff selected_def)

lemma selected_well_typed:
  assumes "view_well_typed cs" and "a \<in> set (filter (selected st) cs)"
  shows "is_string (customer_id a)" and "a \<in> set cs"
  using assms by (auto simp: view_well_typed_def list_all_iff customer_well_typed_def)

lemma computeView_total:
  assumes "view_well_typed cs"
  shows "computeView rt (st\<lparr> sortType := k \<rparr>) cs = sort_stage rt k (filter (selected st) cs)"
  using apply_filters_total [OF assms, of "st\<lparr> sortType := k \<rparr>"]
  by (simp add: computeView_def bindE_def)

lemma sort_stage_mset:
  assumes "\<And>a. a \<in> set xs \<Longrightarrow> is_string (customer_id a)"
  shows "\<exists>ys. sort_stage rt k xs = Inr ys \<and> mset ys = mset xs"
proof -
  have d: "\<exists>ys. sortE cmp_probability_desc xs = Inr ys \<and> mset ys = mset xs"
    by (rule sortE_mset) (simp add: cmp_probability_desc_def)
  have a: "\<exists>ys. sortE cmp_probability_asc xs = Inr ys \<and> mset ys = mset xs"
    by (rule sortE_mset) (simp add: cmp_probability_asc_def)
  have i: "\<exists>ys. sortE (cmp_id_asc rt) xs = Inr ys \<and> mset ys = mset xs"
    by (rule sortE_mset) (simp add: cmp_id_asc_string assms)
  from d a i show ?thesis by (simp add: sort_stage_def)
qed

lemma tied_well_typed: "view_well_typed tied_entities"
  by (simp add: tied_entities_def eval_view)

lemma tied_consistent: "consistent_compare sample_runtime (map id_text tied_entities)"
  by (simp add: tied_entities_def consistent_compare_def sample_runtime_def id_text_def
        sample_customer_def code_unit_compare_def)

lemma tied_view:
  "computeView sample_runtime (initial_state\<lparr> sortType := ''id-asc'' \<rparr>) tied_entities
     = Inr [sample_customer ''a-2'' 30, sample_customer ''a-7'' 20, sample_customer ''b-7'' 10]"
  by (simp add: tied_entities_def eval_view sample_runtime_def code_unit_compare_def)

lemma round64_two_53: "round64 9007199254740992 = 9007199254740992"
  by (subst round64_eval [where k = 53]) (simp_all add: pow2_def round_even_def)

lemma round64_two_53_plus_1: "round64 9007199254740993 = 9007199254740992"
  by (subst round64_eval [where k = 53]) (simp_all add: pow2_def round_even_def)

text \<open>
  C8, as stated, fails: \<^verbatim>\<open>parseInt\<close> returns a double, so two digit runs that
  differ only beyond the precision of a double count as equal. The id
  a-9007199254740993 comes before the id b-9007199254740992, although the integer
  of its digit run is the larger one.
\<close>

theorem id_asc_big_run_counterexample:
  "computeView sample_runtime (initial_state\<lparr> sortType := ''id-asc'' \<rparr>) big_run_entities
     = Inr [sample_customer ''a-9007199254740993'' 20, sample_customer ''b-9007199254740992'' 10] \<and>
   parseInt_digits (first_digit_run ''b-9007199254740992'')
     < parseInt_digits (first_digit_run ''a-9007199254740993'')"
  by (simp add: big_run_entities_def computeView_def apply_filters_def run_stage_def bindE_def
        sort_stage_def initial_state_def cmp_id_asc_def sample_customer_def first_digit_run_def
        is_digit_def parseInt_digits_def digit_value_def round64_two_53 round64_two_53_plus_1
        sample_runtime_def code_unit_compare_def)

lemma first_digit_run_split:
  assumes "list_all (\<lambda>c. \<not> is_digit c) pre" and "ds \<noteq> []" and "list_all is_digit ds"
    and "post = [] \<or> \<not> is_digit (hd post)"
  shows "first_digit_run (pre @ ds @ post) = ds"
proof -
  have "dropWhile (\<lambda>c. \<not> is_digit c) (pre @ ds @ post) = dropWhile (\<lambda>c. \<not> is_digit c) (ds @ post)"
    using assms(1) by (intro dropWhile_append2) (simp add: list_all_iff)
  also have "\<dots> = ds @ post"
    using assms(2,3) by (cases ds) simp_all
  finally have d: "dropWhile (\<lambda>c. \<not> is_digit c) (pre @ ds @ post) = ds @ post" .
  have "takeWhile is_digit (ds @ post) = ds @ takeWhile is_digit post"
    using assms(3) by (intro takeWhile_append2) (simp add: list_all_iff)
  also have "takeWhile is_digit post = []"
    using assms(4) by (cases post) auto
  finally show ?thesis by (simp add: first_digit_run_def d)
qed

lemma first_digit_run_none:
  assumes "list_all (\<lambda>c. \<not> is_digit c) s"
  shows "first_digit_run s = []"
proof -
  have d: "dropWhile (\<lambda>c. \<not> is_digit c) s = []"
    using assms by (simp add: list_all_iff)
  show ?thesis unfolding first_digit_run_def d by simp
qed

lemma id_key_split:
  assumes "customer_id c = JStr (pre @ ds @ post)"
    and "list_all (\<lambda>c. \<not> is_digit c) pre" and "ds \<noteq> []" and "list_all is_digit ds"
    and "post = [] \<or> \<not> is_digit (hd post)"
  shows "id_key c = round64 (real (parseInt_digits ds))"
  using first_digit_run_split [OF assms(2,3,4,5)] assms(1,3)
  by (simp add: id_key_def)

lemma id_key_none:
  assumes "customer_id c = JStr s" and "list_all (\<lambda>c. \<not> is_digit c) s"
  shows "id_key c = 0"
  using first_digit_run_none [OF assms(2)] assms(1)
  by (simp add: id_key_def parseInt_digits_def digit_value_def round64_0)

lemma parseInt_digits_snoc:
  "parseInt_digits (ds @ [d]) = 10 * parseInt_digits ds + digit_value d"
  by (simp add: parseInt_digits_def)

lemma digit_values:
  "map digit_value ''0123456789'' = [0, 1, 2, 3, 4, 5, 6, 7, 8, 9]"
  by (simp add: digit_value_def)

lemma is_digit_iff: "is_digit c \<longleftrightarrow> c \<in> set ''0123456789''"
  by (cases c) (auto simp: is_digit_def)

lemma id_asc_view:
  "(view_well_typed cs \<and> consistent_compare rt (map id_text cs) \<longrightarrow>
      (\<exists>v. computeView rt (st\<lparr> sortType := ''id-asc'' \<rparr>) cs = Inr v \<and>
           mset v = mset (filter (selected st) cs) \<and>
           sorted_wrt (id_asc_le rt) v)) \<and>
   map customer_id (projr (computeView rt (initial_state\<lparr> sortType := ''id-asc'' \<rparr>) three_entities))
     = [JStr ''entity-1'', JStr ''entity-2'', JStr ''entity-11''] \<and>
   \<not> isl (computeView rt (initial_state\<lparr> sortType := ''id-asc'' \<rparr>) three_entities)"
proof -
  have gen: "\<exists>v. computeView rt (st\<lparr> sortType := ''id-asc'' \<rparr>) cs = Inr v \<and>
           mset v = mset (filter (selected st) cs) \<and> sorted_wrt (id_asc_le rt) v"
    if wt: "view_well_typed cs" and cc: "consistent_compare rt (map id_text cs)"
  proof -
    let ?F = "filter (selected st) cs"
    have cv: "computeView rt (st\<lparr> sortType := ''id-asc'' \<rparr>) cs = sortE (cmp_id_asc rt) ?F"
      by (simp add: computeView_total [OF wt] sort_stage_def)
    have str: "\<And>a. a \<in> set ?F \<Longrightarrow> is_string (customer_id a)"
      by (rule selected_well_typed(1) [OF wt])
    have sub: "\<And>a. a \<in> set ?F \<Longrightarrow> a \<in> set cs" by simp
    have c: "\<And>a b. a \<in> set ?F \<Longrightarrow> b \<in> set ?F \<Longrightarrow> cmp_id_asc rt a b = Inr (id_cmp rt a b)"
      by (rule cmp_id_asc_string) (rule str, assumption)+
    have "\<exists>ys. sortE (cmp_id_asc rt) ?F = Inr ys \<and> mset ys = mset ?F"
      by (rule sortE_mset) (simp add: c del: set_filter)
    then obtain v where v: "sortE (cmp_id_asc rt) ?F = Inr v" "mset v = mset ?F" by blast
    have "sorted_wrt (\<lambda>a b. id_cmp rt a b \<le> 0) v"
    proof (rule sortE_sorted [OF c _ _ v(1)])
      fix a b assume "a \<in> set ?F" "b \<in> set ?F"
      then show "id_cmp rt a b \<le> 0 \<or> id_cmp rt b a \<le> 0"
        using id_asc_total [OF cc, of a b] by simp
    next
      fix a b c assume "a \<in> set ?F" "b \<in> set ?F" "c \<in> set ?F"
        "id_cmp rt a b \<le> 0" "id_cmp rt b c \<le> 0"
      then show "id_cmp rt a c \<le> 0"
        using id_asc_trans [OF cc, of a b c] by simp
    qed
    then have "sorted_wrt (id_asc_le rt) v" by (simp add: id_cmp_le [abs_def])
    with cv v show ?thesis by simp
  qed
  have ex: "computeView rt (initial_state\<lparr> sortType := ''id-asc'' \<rparr>) three_entities
            = Inr [sample_customer ''entity-1'' 30, sample_customer ''entity-2'' 20,
                   sample_customer ''entity-11'' 10]"
    by (simp add: computeView_def apply_filters_def run_stage_def bindE_def sort_stage_def
          initial_state_def three_entities_def cmp_id_asc_def sample_customer_def
          first_digit_run_def is_digit_def parseInt_digits_def digit_value_def round64_small)
  have "map customer_id (projr (computeView rt (initial_state\<lparr> sortType := ''id-asc'' \<rparr>) three_entities))
     = [JStr ''entity-1'', JStr ''entity-2'', JStr ''entity-11''] \<and>
   \<not> isl (computeView rt (initial_state\<lparr> sortType := ''id-asc'' \<rparr>) three_entities)"
    unfolding ex by (simp add: sample_customer_def)
  with gen show ?thesis by blast
qed

text \<open>
  C8, amended. Under the sort key \<^verbatim>\<open>id-asc\<close> the view of a well-typed entity list is
  the selected entities, ordered by the number that \<^verbatim>\<open>parseInt\<close> gives the first run
  of decimal digits of the id, which is the double nearest to the integer the
  run denotes and 0 when the id has no digit, and among equal numbers by
  \<open>localeCompare\<close> on the whole id strings, for every \<open>localeCompare\<close> that is a
  consistent comparator on these ids. Whatever \<open>localeCompare\<close> is, the ids
  entity-11, entity-2, entity-1 come out as entity-1, entity-2, entity-11.
\<close>

theorem id_asc_natural_order:
  "(view_well_typed cs \<and> consistent_compare rt (map id_text cs) \<longrightarrow>
      (\<exists>v. computeView rt (st\<lparr> sortType := ''id-asc'' \<rparr>) cs = Inr v \<and>
           mset v = mset (filter (selected st) cs) \<and>
           sorted_wrt (id_asc_le rt) v)) \<and>
   (id_asc_le rt a b \<longleftrightarrow>
      id_key a < id_key b \<or>
      (id_key a = id_key b \<and> localeCompare rt (id_text a) (id_text b) \<le> 0)) \<and>
   (customer_id c = JStr (pre @ ds @ post) \<and> list_all (\<lambda>x. \<not> is_digit x) pre \<and>
    ds \<noteq> [] \<and> list_all is_digit ds \<and> (post = [] \<or> \<not> is_digit (hd post)) \<longrightarrow>
      id_key c = round64 (real (parseInt_digits ds)) \<and> id_text c = pre @ ds @ post) \<and>
   (customer_id c' = JStr s \<and> list_all (\<lambda>x. \<not> is_digit x) s \<longrightarrow> id_key c' = 0) \<and>
   parseInt_digits [] = 0 \<and>
   parseInt_digits (ds' @ [d]) = 10 * parseInt_digits ds' + digit_value d \<and>
   (is_digit x \<longleftrightarrow> x \<in> set ''0123456789'') \<and>
   map digit_value ''0123456789'' = [0, 1, 2, 3, 4, 5, 6, 7, 8, 9] \<and>
   map customer_id (projr (computeView rt (initial_state\<lparr> sortType := ''id-asc'' \<rparr>) three_entities))
     = [JStr ''entity-1'', JStr ''entity-2'', JStr ''entity-11''] \<and>
   \<not> isl (computeView rt (initial_state\<lparr> sortType := ''id-asc'' \<rparr>) three_entities)"
proof -
  note v = id_asc_view [of cs rt st]
  have k: "customer_id c = JStr (pre @ ds @ post) \<and> list_all (\<lambda>x. \<not> is_digit x) pre \<and>
    ds \<noteq> [] \<and> list_all is_digit ds \<and> (post = [] \<or> \<not> is_digit (hd post)) \<longrightarrow>
      id_key c = round64 (real (parseInt_digits ds)) \<and> id_text c = pre @ ds @ post"
    using id_key_split [of c pre ds post] by (simp add: id_text_def)
  have z: "customer_id c' = JStr s \<and> list_all (\<lambda>x. \<not> is_digit x) s \<longrightarrow> id_key c' = 0"
    using id_key_none [of c' s] by simp
  have p: "parseInt_digits [] = 0" by (simp add: parseInt_digits_def)
  from v [THEN conjunct1] v [THEN conjunct2] k z p
    parseInt_digits_snoc [of ds' d] is_digit_iff [of x] digit_values
  show ?thesis by (simp only: id_asc_le_def simp_thms)
qed

theorem id_asc_natural_order_witness:
  "view_well_typed tied_entities \<and>
   consistent_compare sample_runtime (map id_text tied_entities) \<and>
   computeView sample_runtime (initial_state\<lparr> sortType := ''id-asc'' \<rparr>) tied_entities
     = Inr [sample_customer ''a-2'' 30, sample_customer ''a-7'' 20, sample_customer ''b-7'' 10] \<and>
   sorted_wrt (id_asc_le sample_runtime)
     [sample_customer ''a-2'' 30, sample_customer ''a-7'' 20, sample_customer ''b-7'' 10] \<and>
   customer_id (sample_customer ''a-7'' 20) = JStr (''a-'' @ ''7'' @ []) \<and>
   list_all (\<lambda>x. \<not> is_digit x) ''a-'' \<and> list_all is_digit ''7'' \<and>
   id_key (sample_customer ''a-7'' 20) = 7 \<and>
   customer_id (sample_customer ''none'' 20) = JStr ''none'' \<and>
   list_all (\<lambda>x. \<not> is_digit x) ''none'' \<and>
   id_key (sample_customer ''none'' 20) = 0"
proof -
  note inst = id_asc_natural_order [where cs = tied_entities and rt = sample_runtime
      and st = initial_state and c = "sample_customer ''a-7'' 20" and pre = "''a-''"
      and ds = "''7''" and post = "[]" and c' = "sample_customer ''none'' 20"
      and s = "''none''"]
  have a: "customer_id (sample_customer ''a-7'' 20) = JStr (''a-'' @ ''7'' @ [])"
    and b: "list_all (\<lambda>x. \<not> is_digit x) ''a-''" and c: "list_all is_digit ''7''"
    and d: "customer_id (sample_customer ''none'' 20) = JStr ''none''"
    and e: "list_all (\<lambda>x. \<not> is_digit x) ''none''"
    by (simp_all add: sample_customer_def is_digit_def)
  from inst [THEN conjunct1] tied_well_typed tied_consistent tied_view
  have f: "sorted_wrt (id_asc_le sample_runtime)
     [sample_customer ''a-2'' 30, sample_customer ''a-7'' 20, sample_customer ''b-7'' 10]"
    by auto
  from inst [THEN conjunct2, THEN conjunct2, THEN conjunct1] a b c
  have "id_key (sample_customer ''a-7'' 20) = round64 (real (parseInt_digits ''7''))"
    by simp
  then have g: "id_key (sample_customer ''a-7'' 20) = 7"
    by (simp add: parseInt_digits_def digit_value_def round64_small)
  from inst [THEN conjunct2, THEN conjunct2, THEN conjunct2, THEN conjunct1] d e
  have h: "id_key (sample_customer ''none'' 20) = 0"
    by simp
  from tied_well_typed tied_consistent tied_view f a b c g d e h
  show ?thesis by (intro conjI)
qed

lemma run_stage_filteredCustomers:
  "run_stage (st\<lparr> filteredCustomers := v \<rparr>) s cs = run_stage st s cs"
  by (cases s) (simp_all add: run_stage_def)

lemma critical_effect:
  "filter_effect sample_runtime critical_state
     = Inr (critical_state\<lparr> filteredCustomers :=
              [sample_customer ''entity-1'' 95, sample_customer ''entity-4'' 91] \<rparr>)"
  by (simp add: filter_effect_def critical_state_def four_entities_def eval_view)

lemma insertE_Inr_mset:
  "insertE cmp x ys = Inr zs \<Longrightarrow> mset zs = mset (x # ys)"
proof (induction ys arbitrary: zs)
  case Nil
  then show ?case by auto
next
  case (Cons y ys)
  from Cons.prems obtain r where r: "cmp x y = Inr r" by (auto split: sum.splits)
  show ?case
  proof (cases "r \<le> 0")
    case True
    then show ?thesis using Cons.prems r by auto
  next
    case False
    with Cons.prems r obtain zs' where zs': "insertE cmp x ys = Inr zs'" "zs = y # zs'"
      by (auto split: sum.splits)
    from Cons.IH [OF zs'(1)] zs'(2) show ?thesis by simp
  qed
qed

lemma sortE_Inr_mset:
  "sortE cmp xs = Inr ys \<Longrightarrow> mset ys = mset xs"
proof (induction xs arbitrary: ys)
  case Nil
  then show ?case by simp
next
  case (Cons x xs)
  from Cons.prems obtain ys' where ys': "sortE cmp xs = Inr ys'" "insertE cmp x ys' = Inr ys"
    by (auto simp: bindE_def split: sum.splits)
  from Cons.IH [OF ys'(1)] insertE_Inr_mset [OF ys'(2)] show ?case by simp
qed

lemma sort_stage_Inr_mset:
  "sort_stage rt k xs = Inr ys \<Longrightarrow> mset ys = mset xs"
  by (auto simp: sort_stage_def dest: sortE_Inr_mset split: if_splits)

lemma run_stage_sortType:
  "run_stage (st\<lparr> sortType := k \<rparr>) s cs = run_stage st s cs"
  by (cases s) (simp_all add: run_stage_def)

lemma apply_filters_sortType:
  "apply_filters (st\<lparr> sortType := k \<rparr>) cs = apply_filters st cs"
  by (simp add: apply_filters_def run_stage_sortType)

lemma apply_filters_Inr:
  assumes "apply_filters st cs = Inr v"
  shows "v = filter (selected st) cs"
  using run_stages_Inr [of st all_stages cs v] assms
  by (simp add: apply_filters_run_stages selected_alt)

lemma computeView_Inr:
  assumes "computeView rt (st\<lparr> sortType := k \<rparr>) cs = Inr v"
  shows "mset v = mset (filter (selected st) cs)"
proof -
  from assms obtain f where f: "apply_filters st cs = Inr f" and s: "sort_stage rt k f = Inr v"
    by (auto simp: computeView_def bindE_def apply_filters_sortType split: sum.splits)
  from apply_filters_Inr [OF f] sort_stage_Inr_mset [OF s] show ?thesis by simp
qed

lemma critical_view_id:
  "computeView sample_runtime (critical_state\<lparr> sortType := ''id-asc'' \<rparr>) four_entities
     = Inr [sample_customer ''entity-1'' 95, sample_customer ''entity-4'' 91]"
  by (simp add: critical_state_def four_entities_def eval_view)

lemma critical_view_lowest:
  "computeView sample_runtime (critical_state\<lparr> sortType := ''lowest-risk'' \<rparr>) four_entities
     = Inr [sample_customer ''entity-4'' 91, sample_customer ''entity-1'' 95]"
  by (simp add: critical_state_def four_entities_def eval_view)

text \<open>
  C9. Whenever the views under two sort keys, the other query fields being
  equal, are both produced, they hold the same entities with the same
  multiplicities, namely the selected ones: the sort key changes the order only.
  On a well-typed entity list the view is produced under every sort key.
  Running the filter-and-sort effect again on the state it produced gives that
  state again.
\<close>

theorem view_sort_key_independent:
  "(computeView rt (st\<lparr> sortType := k1 \<rparr>) cs = Inr v1 \<and>
    computeView rt (st\<lparr> sortType := k2 \<rparr>) cs = Inr v2 \<longrightarrow>
      mset v1 = mset v2 \<and> mset v1 = mset (filter (selected st) cs)) \<and>
   (view_well_typed cs \<longrightarrow>
      (\<exists>w1 w2. computeView rt (st\<lparr> sortType := k1 \<rparr>) cs = Inr w1 \<and>
                computeView rt (st\<lparr> sortType := k2 \<rparr>) cs = Inr w2)) \<and>
   (filter_effect rt st = Inr st' \<longrightarrow> filter_effect rt st' = Inr st')"
proof -
  have g: "mset v1 = mset v2 \<and> mset v1 = mset (filter (selected st) cs)"
    if "computeView rt (st\<lparr> sortType := k1 \<rparr>) cs = Inr v1"
      and "computeView rt (st\<lparr> sortType := k2 \<rparr>) cs = Inr v2"
    using computeView_Inr [OF that(1)] computeView_Inr [OF that(2)] by simp
  have a: "\<exists>w1 w2. computeView rt (st\<lparr> sortType := k1 \<rparr>) cs = Inr w1 \<and>
                computeView rt (st\<lparr> sortType := k2 \<rparr>) cs = Inr w2"
    if wt: "view_well_typed cs"
  proof -
    let ?F = "filter (selected st) cs"
    have str: "\<And>a. a \<in> set ?F \<Longrightarrow> is_string (customer_id a)"
      by (rule selected_well_typed(1) [OF wt])
    from sort_stage_mset [of ?F rt k1, OF str] obtain w1
      where w1: "sort_stage rt k1 ?F = Inr w1" by blast
    from sort_stage_mset [of ?F rt k2, OF str] obtain w2
      where w2: "sort_stage rt k2 ?F = Inr w2" by blast
    from w1 w2 show ?thesis by (simp add: computeView_total [OF wt])
  qed
  have b: "filter_effect rt st' = Inr st'" if e: "filter_effect rt st = Inr st'"
  proof -
    from e obtain v where v: "computeView rt st (normalizedCustomers st) = Inr v"
      and s: "st' = st\<lparr> filteredCustomers := v \<rparr>"
      by (auto simp: filter_effect_def bindE_def split: sum.splits)
    have "apply_filters st' = apply_filters st"
      unfolding s by (simp add: fun_eq_iff apply_filters_def run_stage_filteredCustomers)
    then have "computeView rt st' (normalizedCustomers st') = Inr v"
      using v unfolding s by (simp add: computeView_def)
    then show ?thesis unfolding s by (simp add: filter_effect_def bindE_def)
  qed
  from g a b show ?thesis by blast
qed

theorem view_sort_key_independent_witness:
  "computeView sample_runtime (critical_state\<lparr> sortType := ''id-asc'' \<rparr>) four_entities
     = Inr [sample_customer ''entity-1'' 95, sample_customer ''entity-4'' 91] \<and>
   computeView sample_runtime (critical_state\<lparr> sortType := ''lowest-risk'' \<rparr>) four_entities
     = Inr [sample_customer ''entity-4'' 91, sample_customer ''entity-1'' 95] \<and>
   mset [sample_customer ''entity-1'' 95, sample_customer ''entity-4'' 91]
     = mset [sample_customer ''entity-4'' 91, sample_customer ''entity-1'' 95] \<and>
   view_well_typed four_entities \<and>
   (\<exists>w1 w2.
      computeView sample_runtime (critical_state\<lparr> sortType := ''id-asc'' \<rparr>) four_entities = Inr w1 \<and>
      computeView sample_runtime (critical_state\<lparr> sortType := ''lowest-risk'' \<rparr>) four_entities = Inr w2) \<and>
   filter_effect sample_runtime critical_state
     = Inr (critical_state\<lparr> filteredCustomers :=
              [sample_customer ''entity-1'' 95, sample_customer ''entity-4'' 91] \<rparr>) \<and>
   filter_effect sample_runtime
       (critical_state\<lparr> filteredCustomers :=
              [sample_customer ''entity-1'' 95, sample_customer ''entity-4'' 91] \<rparr>)
     = Inr (critical_state\<lparr> filteredCustomers :=
              [sample_customer ''entity-1'' 95, sample_customer ''entity-4'' 91] \<rparr>)"
proof -
  note t = view_sort_key_independent [where cs = four_entities and rt = sample_runtime
          and st = critical_state and ?k1.0 = "''id-asc''" and ?k2.0 = "''lowest-risk''"
          and ?v1.0 = "[sample_customer ''entity-1'' 95, sample_customer ''entity-4'' 91]"
          and ?v2.0 = "[sample_customer ''entity-4'' 91, sample_customer ''entity-1'' 95]"
          and st' = "critical_state\<lparr> filteredCustomers :=
              [sample_customer ''entity-1'' 95, sample_customer ''entity-4'' 91] \<rparr>"]
  have m: "mset [sample_customer ''entity-1'' 95, sample_customer ''entity-4'' 91]
     = mset [sample_customer ''entity-4'' 91, sample_customer ''entity-1'' 95]"
    using t [THEN conjunct1, rule_format, OF conjI, OF critical_view_id critical_view_lowest]
    by (rule conjunct1)
  have e: "filter_effect sample_runtime
       (critical_state\<lparr> filteredCustomers :=
              [sample_customer ''entity-1'' 95, sample_customer ''entity-4'' 91] \<rparr>)
     = Inr (critical_state\<lparr> filteredCustomers :=
              [sample_customer ''entity-1'' 95, sample_customer ''entity-4'' 91] \<rparr>)"
    by (rule t [THEN conjunct2, THEN conjunct2, rule_format, OF critical_effect])
  have x: "\<exists>w1 w2.
      computeView sample_runtime (critical_state\<lparr> sortType := ''id-asc'' \<rparr>) four_entities = Inr w1 \<and>
      computeView sample_runtime (critical_state\<lparr> sortType := ''lowest-risk'' \<rparr>) four_entities = Inr w2"
    by (rule t [THEN conjunct2, THEN conjunct1, rule_format, OF four_well_typed])
  from critical_view_id critical_view_lowest m four_well_typed x critical_effect e
  show ?thesis by (intro conjI)
qed

end
